theory Spec2Isabelle
  imports Main "HOL-Library.Sublist" "HOL-Library.List_Lexorder"
    "HOL-Library.Product_Lexorder" "HOL-Library.Multiset"
begin

section \<open>Privacy scanner: data model\<close>

text \<open>
  The scanner of \<^verbatim>\<open>scripts/privacy-scan.py\<close>. A Python \<^verbatim>\<open>str\<close> is the list of its code
  points; \<open>u\<close> turns a literal of the program into such a list. Lists of code points
  are ordered lexicographically, as Python orders strings. Severity and category are
  strings, as the fields of the dataclass are.
\<close>

type_synonym ustring = "nat list"

definition u :: "string \<Rightarrow> ustring" where
  "u s = map of_char s"

record finding =
  file' :: ustring
  line :: int
  severity :: ustring
  category :: ustring
  description :: ustring
  code_snippet :: ustring
  recommendation :: ustring

datatype error = ValueError | UsageError | OSError | UnicodeEncodeError

subsection \<open>Characters and strings\<close>

text \<open>
  What the scanner takes from the Unicode database of the interpreter: the characters for
  which \<^verbatim>\<open>str.isspace\<close> holds (they are the characters \<^verbatim>\<open>str.strip\<close> trims and the class
  \<^verbatim>\<open>\s\<close>), the characters of the class \<^verbatim>\<open>\w\<close> (alphanumeric characters and the
  underscore; \<^verbatim>\<open>\b\<close> is defined from it), and \<^verbatim>\<open>str.lower\<close>, a function of the whole
  string. The tables are a parameter of the model.
\<close>

record unicode =
  uspace :: "nat \<Rightarrow> bool"
  uword :: "nat \<Rightarrow> bool"
  ulower :: "ustring \<Rightarrow> ustring"

text \<open>The three tables on ASCII: tab, LF, VT, FF, CR, FS, GS, RS, US and space are blank;
  letters, digits and the underscore are word characters; A-Z have lower-case forms.\<close>

definition ascii_space :: "nat \<Rightarrow> bool" where
  "ascii_space c = (c \<in> set [9, 10, 11, 12, 13, 28, 29, 30, 31, 32])"

definition ascii_word :: "nat \<Rightarrow> bool" where
  "ascii_word c = ((48 \<le> c \<and> c \<le> 57) \<or> (65 \<le> c \<and> c \<le> 90) \<or> c = 95 \<or> (97 \<le> c \<and> c \<le> 122))"

definition ascii_lower :: "nat \<Rightarrow> nat" where
  "ascii_lower c = (if 65 \<le> c \<and> c \<le> 90 then c + 32 else c)"

definition ascii_upper :: "nat \<Rightarrow> nat" where
  "ascii_upper c = (if 97 \<le> c \<and> c \<le> 122 then c - 32 else c)"

text \<open>
  What is assumed of the tables: on ASCII they are the ASCII tables, and lower-casing
  leaves a string of blank characters as it is. The tables of the interpreter have
  both properties.
\<close>

definition py_unicode :: "unicode \<Rightarrow> bool" where
  "py_unicode U =
     ((\<forall>c<128. uspace U c = ascii_space c)
      \<and> (\<forall>c<128. uword U c = ascii_word c)
      \<and> (\<forall>s. (\<forall>c \<in> set s. c < 128) \<longrightarrow> ulower U s = map ascii_lower s)
      \<and> (\<forall>s. (\<forall>c \<in> set s. uspace U c) \<longrightarrow> ulower U s = s))"

text \<open>The tables cut down to ASCII: no other character is blank, a word character or
  cased. On ASCII text they give what the tables of the interpreter give.\<close>

definition ascii_unicode :: unicode where
  "ascii_unicode = \<lparr>uspace = ascii_space, uword = ascii_word, ulower = map ascii_lower\<rparr>"

text \<open>
  \<^verbatim>\<open>str.lower\<close> and \<^verbatim>\<open>str.upper\<close> where the program applies them to a severity name.
  \<^verbatim>\<open>upper\<close> is applied to the four literals only. \<^verbatim>\<open>lower\<close> is applied to the threshold
  and its result looked up in the list of the four names: the only character outside
  ASCII whose lower-case form is made of ASCII letters is the Kelvin sign, which gives k,
  and none of the four names has a k; so the lookup of the ASCII form gives the same
  result for every string.
\<close>

definition lower :: "ustring \<Rightarrow> ustring" where
  "lower s = map ascii_lower s"

definition upper :: "ustring \<Rightarrow> ustring" where
  "upper s = map ascii_upper s"

definition strip :: "unicode \<Rightarrow> ustring \<Rightarrow> ustring" where
  "strip U s = rev (dropWhile (uspace U) (rev (dropWhile (uspace U) s)))"

definition startswith :: "ustring \<Rightarrow> ustring \<Rightarrow> bool" where
  "startswith s p = (take (length p) s = p)"

text \<open>\<^verbatim>\<open>sep.join(xs)\<close>\<close>

fun join :: "ustring \<Rightarrow> ustring list \<Rightarrow> ustring" where
  "join sep [] = []"
| "join sep [x] = x"
| "join sep (x # xs) = x @ sep @ join sep xs"

text \<open>\<^verbatim>\<open>content.split('\n')\<close>: always at least one line.\<close>

fun split_nl :: "ustring \<Rightarrow> ustring list" where
  "split_nl [] = [[]]"
| "split_nl (c # cs) =
     (if c = 10 then [] # split_nl cs
      else (let r = split_nl cs in (c # hd r) # tl r))"

subsection \<open>Regular expressions\<close>

text \<open>
  The patterns of the rule catalog use literals, alternation, the classes
  \<^verbatim>\<open>\w\<close>, \<^verbatim>\<open>\s\<close>, \<^verbatim>\<open>.\<close>, \<^verbatim>\<open>[^)]\<close> and a two-character set, repetition
  of a single class, an optional class, the anchor \<^verbatim>\<open>\b\<close> and one negative lookahead.
  \<^verbatim>\<open>re.search\<close> is used for its truth value only, so the matcher returns every
  position at which a match starting at \<open>i\<close> can end; \<^verbatim>\<open>re.search\<close> succeeds iff some
  start position has one.
\<close>

datatype cclass = Dot | WordC | SpaceC | NotC nat | AnyOf "nat list"

fun cls_ok :: "unicode \<Rightarrow> cclass \<Rightarrow> nat \<Rightarrow> bool" where
  "cls_ok U Dot c = (c \<noteq> 10)"
| "cls_ok U WordC c = uword U c"
| "cls_ok U SpaceC c = uspace U c"
| "cls_ok U (NotC d) c = (c \<noteq> d)"
| "cls_ok U (AnyOf ds) c = (c \<in> set ds)"

datatype regex =
    Lit ustring
  | Cls cclass
  | Seq regex regex
  | Alt regex regex
  | Star cclass
  | Opt regex
  | WordB
  | NegAhead regex

definition word_at :: "unicode \<Rightarrow> ustring \<Rightarrow> nat \<Rightarrow> bool" where
  "word_at U s i = (i < length s \<and> uword U (s ! i))"

definition boundary :: "unicode \<Rightarrow> ustring \<Rightarrow> nat \<Rightarrow> bool" where
  "boundary U s i = ((0 < i \<and> word_at U s (i - 1)) \<noteq> word_at U s i)"

fun rmatch :: "unicode \<Rightarrow> regex \<Rightarrow> ustring \<Rightarrow> nat \<Rightarrow> nat list" where
  "rmatch U (Lit t) s i = (if take (length t) (drop i s) = t then [i + length t] else [])"
| "rmatch U (Cls c) s i = (if i < length s \<and> cls_ok U c (s ! i) then [Suc i] else [])"
| "rmatch U (Seq a b) s i = concat (map (\<lambda>j. rmatch U b s j) (rmatch U a s i))"
| "rmatch U (Alt a b) s i = rmatch U a s i @ rmatch U b s i"
| "rmatch U (Star c) s i =
     map (\<lambda>k. i + k) (rev [0..<Suc (length (takeWhile (cls_ok U c) (drop i s)))])"
| "rmatch U (Opt a) s i = rmatch U a s i @ [i]"
| "rmatch U WordB s i = (if boundary U s i then [i] else [])"
| "rmatch U (NegAhead a) s i = (if rmatch U a s i = [] then [i] else [])"

definition search :: "unicode \<Rightarrow> regex \<Rightarrow> ustring \<Rightarrow> bool" where
  "search U r s = list_ex (\<lambda>i. rmatch U r s i \<noteq> []) [0..<Suc (length s)]"

fun alts :: "ustring list \<Rightarrow> regex" where
  "alts [] = NegAhead (Lit [])"
| "alts [t] = Lit t"
| "alts (t # ts) = Alt (Lit t) (alts ts)"

fun seqs :: "regex list \<Rightarrow> regex" where
  "seqs [] = Lit []"
| "seqs [r] = r"
| "seqs (r # rs) = Seq r (seqs rs)"

section \<open>Rule catalog\<close>

datatype Severity = CRITICAL | HIGH | MEDIUM | LOW

fun sev_value :: "Severity \<Rightarrow> ustring" where
  "sev_value CRITICAL = u ''critical''"
| "sev_value HIGH = u ''high''"
| "sev_value MEDIUM = u ''medium''"
| "sev_value LOW = u ''low''"

text \<open>\<^verbatim>\<open>\b(t1|...|tn)\b\<close>, the shape of every field pattern.\<close>

definition word_alt :: "string list \<Rightarrow> regex" where
  "word_alt ts = Seq WordB (Seq (alts (map u ts)) WordB)"

definition PII_FIELD_PATTERNS :: "(regex \<times> string \<times> Severity) list" where
  "PII_FIELD_PATTERNS = [
    (word_alt [''ssn'', ''social_security'', ''social_security_number''], ''SSN'', CRITICAL),
    (word_alt [''credit_card'', ''card_number'', ''cc_number'', ''ccn''], ''Credit Card'', CRITICAL),
    (word_alt [''password'', ''passwd'', ''pwd'', ''secret'', ''api_key'', ''apikey'', ''token''],
       ''Credential'', CRITICAL),
    (word_alt [''passport'', ''passport_number'', ''passport_no''], ''Passport'', CRITICAL),
    (word_alt [''driver_license'', ''drivers_license'', ''dl_number''], ''Driver License'', CRITICAL),
    (word_alt [''bank_account'', ''account_number'', ''routing_number'', ''iban''], ''Financial'', CRITICAL),
    (word_alt [''email'', ''email_address'', ''e_mail''], ''Email'', HIGH),
    (word_alt [''phone'', ''phone_number'', ''mobile'', ''telephone'', ''cell''], ''Phone'', HIGH),
    (word_alt [''address'', ''street_address'', ''home_address'', ''mailing_address''], ''Address'', HIGH),
    (word_alt [''birth_date'', ''dob'', ''date_of_birth'', ''birthday''], ''Birth Date'', HIGH),
    (word_alt [''first_name'', ''last_name'', ''full_name'', ''surname'', ''given_name''], ''Name'', MEDIUM),
    (word_alt [''ip_address'', ''ip_addr'', ''client_ip'', ''user_ip''], ''IP Address'', MEDIUM),
    (word_alt [''location'', ''latitude'', ''longitude'', ''geo_location'', ''coordinates''],
       ''Location'', MEDIUM),
    (word_alt [''gender'', ''sex'', ''ethnicity'', ''race'', ''religion''], ''Demographic'', MEDIUM),
    (word_alt [''medical'', ''health'', ''diagnosis'', ''prescription'', ''condition''], ''Health'', CRITICAL),
    (word_alt [''biometric'', ''fingerprint'', ''face_id'', ''facial'', ''retina''], ''Biometric'', CRITICAL)]"

definition log_tokens :: "string list" where
  "log_tokens = [''email'', ''phone'', ''ssn'', ''password'', ''credit_card'', ''address'']"

text \<open>\<^verbatim>\<open>(fn)\s*\([^)]*\b(email|phone|ssn|password|credit_card|address)\<close>, the shape of
  every log pattern; \<open>fn\<close> is the pattern of the logging call.\<close>

definition log_pattern :: "regex \<Rightarrow> regex" where
  "log_pattern fn =
     seqs [fn, Star SpaceC, Lit (u ''(''), Star (NotC 41), WordB, alts (map u log_tokens)]"

definition LOG_PATTERNS :: "regex list" where
  "LOG_PATTERNS = [
    log_pattern (Seq (Lit (u ''console.''))
      (alts (map u [''log'', ''info'', ''warn'', ''error'', ''debug'']))),
    log_pattern (Seq (Lit (u ''logger.''))
      (alts (map u [''log'', ''info'', ''warn'', ''error'', ''debug'']))),
    log_pattern (Seq (Lit (u ''log.'')) (alts (map u [''info'', ''warn'', ''error'', ''debug'']))),
    log_pattern (alts (map u [''print'', ''println'', ''printf''])),
    log_pattern (Seq (Lit (u ''logging.''))
      (alts (map u [''info'', ''warn'', ''error'', ''debug''])))]"

text \<open>The datastore-write pattern up to the closing parenthesis and the blanks after it;
  41 is the code of the closing parenthesis.\<close>

definition store_call :: regex where
  "store_call = seqs [alts (map u [''db'', ''database'', ''store'', ''save'']), Star SpaceC,
     Lit (u ''.''), Star SpaceC, Cls WordC, Star WordC, Star SpaceC, Lit (u ''(''),
     Star (NotC 41), WordB, alts (map u [''ssn'', ''password'', ''credit_card'']), WordB,
     Star (NotC 41), Lit (u '')''), Star SpaceC]"

text \<open>\<^verbatim>\<open>(?!.*encrypt)\<close>\<close>

definition no_encrypt_ahead :: regex where
  "no_encrypt_ahead = NegAhead (Seq (Star Dot) (Lit (u ''encrypt'')))"

text \<open>In the first pattern 39 and 34 are the codes of the two quotation marks.\<close>

definition UNENCRYPTED_PATTERNS :: "regex list" where
  "UNENCRYPTED_PATTERNS = [
    seqs [Cls WordC, Star WordC, Star SpaceC, Lit (u ''=''), Star SpaceC,
      alts (map u [''request'', ''req'']), Lit (u ''.''),
      alts (map u [''body'', ''form'', ''params'', ''query'']), Star SpaceC, Lit (u ''[''),
      Star SpaceC, Opt (Cls (AnyOf [39, 34])),
      alts (map u [''ssn'', ''password'', ''credit_card'', ''card_number''])],
    Seq store_call no_encrypt_ahead]"

section \<open>Line scanner\<close>

definition is_comment :: "unicode \<Rightarrow> ustring \<Rightarrow> bool" where
  "is_comment U ln = (let stripped = strip U ln in
     startswith stripped (u ''//'') \<or> startswith stripped (u ''#'') \<or> startswith stripped (u ''*''))"

definition field_finding ::
  "unicode \<Rightarrow> ustring \<Rightarrow> int \<Rightarrow> ustring \<Rightarrow> string \<Rightarrow> Severity \<Rightarrow> finding" where
  "field_finding U fp line_num ln pii_type sev =
     \<lparr>file' = fp, line = line_num, severity = sev_value sev, category = u ''pii_field'',
      description = u (''Potential '' @ pii_type @ '' field detected''),
      code_snippet = take 100 (strip U ln),
      recommendation = u (''Ensure '' @ pii_type @ '' data is encrypted and access is logged'')\<rparr>"

definition log_finding :: "unicode \<Rightarrow> ustring \<Rightarrow> int \<Rightarrow> ustring \<Rightarrow> finding" where
  "log_finding U fp line_num ln =
     \<lparr>file' = fp, line = line_num, severity = sev_value HIGH, category = u ''pii_in_logs'',
      description = u ''Potential PII being logged'',
      code_snippet = take 100 (strip U ln),
      recommendation = u ''Remove PII from log statements or use masking''\<rparr>"

definition unencrypted_finding :: "unicode \<Rightarrow> ustring \<Rightarrow> int \<Rightarrow> ustring \<Rightarrow> finding" where
  "unencrypted_finding U fp line_num ln =
     \<lparr>file' = fp, line = line_num, severity = sev_value CRITICAL, category = u ''unencrypted_pii'',
      description = u ''Potential unencrypted PII storage'',
      code_snippet = take 100 (strip U ln),
      recommendation = u ''Encrypt sensitive data before storage''\<rparr>"

text \<open>The body of the loop over the lines of \<^verbatim>\<open>scan_file\<close>: the findings one line appends.\<close>

definition scan_line :: "unicode \<Rightarrow> ustring \<Rightarrow> int \<Rightarrow> ustring \<Rightarrow> finding list" where
  "scan_line U fp line_num ln =
     (let line_lower = ulower U ln in
      if is_comment U ln then []
      else
        map (\<lambda>(pattern, pii_type, sev). field_finding U fp line_num ln pii_type sev)
          (filter (\<lambda>(pattern, pii_type, sev). search U pattern line_lower) PII_FIELD_PATTERNS)
        @ map (\<lambda>pattern. log_finding U fp line_num ln)
            (filter (\<lambda>pattern. search U pattern line_lower) LOG_PATTERNS)
        @ map (\<lambda>pattern. unencrypted_finding U fp line_num ln)
            (filter (\<lambda>pattern. search U pattern line_lower) UNENCRYPTED_PATTERNS))"

fun scan_lines :: "unicode \<Rightarrow> ustring \<Rightarrow> int \<Rightarrow> ustring list \<Rightarrow> finding list" where
  "scan_lines U fp line_num [] = []"
| "scan_lines U fp line_num (ln # lns) =
     scan_line U fp line_num ln @ scan_lines U fp (line_num + 1) lns"

text \<open>A path is the tuple of its parts, as \<^verbatim>\<open>Path.parts\<close> gives it; the first part of an
  absolute path is its root, \<^verbatim>\<open>/\<close> or \<^verbatim>\<open>//\<close>.\<close>

type_synonym path = "ustring list"

definition path_str :: "path \<Rightarrow> ustring" where
  "path_str p = (case p of [] \<Rightarrow> u ''.''
     | r # rest \<Rightarrow> if r = u ''/'' \<or> r = u ''//'' then r @ join (u ''/'') rest
                   else join (u ''/'') p)"

text \<open>\<^verbatim>\<open>scan_file\<close>; the content is \<open>None\<close> when reading the file raises, and the
  warning goes to the diagnostic channel.\<close>

definition scan_file :: "unicode \<Rightarrow> path \<Rightarrow> ustring option \<Rightarrow> finding list" where
  "scan_file U file_path content =
     (case content of None \<Rightarrow> []
      | Some text \<Rightarrow> scan_lines U (path_str file_path) 1 (split_nl text))"

section \<open>Finding post-processor\<close>

text \<open>\<^verbatim>\<open>deduplicate_findings\<close>: the loop, with the set \<open>seen\<close> and the list \<open>unique\<close>
  as its state.\<close>

fun dedup_loop ::
  "finding list \<Rightarrow> (ustring \<times> int \<times> ustring) set \<Rightarrow> finding list \<Rightarrow> finding list" where
  "dedup_loop [] seen unique = unique"
| "dedup_loop (f # fs) seen unique =
     (let key = (file' f, line f, category f) in
      if key \<notin> seen then dedup_loop fs (insert key seen) (unique @ [f])
      else dedup_loop fs seen unique)"

definition deduplicate_findings :: "finding list \<Rightarrow> finding list" where
  "deduplicate_findings findings = dedup_loop findings {} []"

definition severity_order :: "ustring list" where
  "severity_order = [u ''critical'', u ''high'', u ''medium'', u ''low'']"

text \<open>\<^verbatim>\<open>list.index\<close>, which raises \<^verbatim>\<open>ValueError\<close> when the value is absent.\<close>

fun index_of :: "'a list \<Rightarrow> 'a \<Rightarrow> error + nat" where
  "index_of [] x = Inl ValueError"
| "index_of (y # ys) x =
     (if y = x then Inr 0
      else (case index_of ys x of Inl e \<Rightarrow> Inl e | Inr i \<Rightarrow> Inr (Suc i)))"

text \<open>The list comprehension of \<^verbatim>\<open>filter_by_severity\<close>.\<close>

fun filter_loop :: "finding list \<Rightarrow> nat \<Rightarrow> error + finding list" where
  "filter_loop [] min_index = Inr []"
| "filter_loop (f # fs) min_index =
     (case index_of severity_order (severity f) of
        Inl e \<Rightarrow> Inl e
      | Inr i \<Rightarrow>
          (case filter_loop fs min_index of
             Inl e \<Rightarrow> Inl e
           | Inr r \<Rightarrow> Inr (if i \<le> min_index then f # r else r)))"

definition filter_by_severity :: "finding list \<Rightarrow> ustring \<Rightarrow> error + finding list" where
  "filter_by_severity findings min_severity =
     (case index_of severity_order (lower min_severity) of
        Inl e \<Rightarrow> Inl e
      | Inr min_index \<Rightarrow> filter_loop findings min_index)"

text \<open>The key of the final sort, \<^verbatim>\<open>(severity_order.index(f.severity), f.file, f.line)\<close>.\<close>

definition sort_key_of :: "finding \<Rightarrow> error + (nat \<times> ustring \<times> int)" where
  "sort_key_of f =
     (case index_of severity_order (severity f) of
        Inl e \<Rightarrow> Inl e
      | Inr i \<Rightarrow> Inr (i, file' f, line f))"

text \<open>\<^verbatim>\<open>list.sort(key=...)\<close> computes the key of every element first, then sorts the
  decorated list stably by the key.\<close>

fun decorate :: "finding list \<Rightarrow> error + ((nat \<times> ustring \<times> int) \<times> finding) list" where
  "decorate [] = Inr []"
| "decorate (f # fs) =
     (case sort_key_of f of
        Inl e \<Rightarrow> Inl e
      | Inr k \<Rightarrow> (case decorate fs of Inl e \<Rightarrow> Inl e | Inr r \<Rightarrow> Inr ((k, f) # r)))"

definition sort_findings :: "finding list \<Rightarrow> error + finding list" where
  "sort_findings findings =
     (case decorate findings of
        Inl e \<Rightarrow> Inl e
      | Inr kfs \<Rightarrow> Inr (map snd (sort_key fst kfs)))"

section \<open>Report renderer\<close>

text \<open>The decimal digits of a number; 48 is the code of the digit 0.\<close>

function str_nat :: "nat \<Rightarrow> ustring" where
  "str_nat n = (if n < 10 then [48 + n] else str_nat (n div 10) @ [48 + n mod 10])"
  by pat_completeness auto
termination
  by (relation "measure (\<lambda>n. n)") auto

definition str_int :: "int \<Rightarrow> ustring" where
  "str_int i = (if i < 0 then u ''-'' @ str_nat (nat (- i)) else str_nat (nat i))"

text \<open>The characters of the report that are not ASCII, by their code points.\<close>

definition check_mark :: ustring where
  "check_mark = [0x2705]"

definition page_icon :: ustring where
  "page_icon = [0x1F4C4]"

definition red_icon :: ustring where
  "red_icon = [0x1F534]"

definition orange_icon :: ustring where
  "orange_icon = [0x1F7E0]"

definition yellow_icon :: ustring where
  "yellow_icon = [0x1F7E1]"

definition blue_icon :: ustring where
  "blue_icon = [0x1F535]"

definition white_icon :: ustring where
  "white_icon = [0x26AA]"

definition arrow :: ustring where
  "arrow = [0x2192]"

definition cross_mark :: ustring where
  "cross_mark = [0x274C]"

definition warning_sign :: ustring where
  "warning_sign = [0x26A0, 0xFE0F]"

definition no_issues_msg :: ustring where
  "no_issues_msg = check_mark @ u '' No privacy issues found.''"

definition failed_line :: ustring where
  "failed_line = cross_mark @ u '' PRIVACY SCAN FAILED - Critical/High issues found''"

definition warnings_line :: ustring where
  "warnings_line = warning_sign @ u '' PRIVACY SCAN PASSED WITH WARNINGS''"

text \<open>The dictionary \<open>by_severity\<close> of \<^verbatim>\<open>format_text_report\<close>.\<close>

definition count_by_severity :: "finding list \<Rightarrow> (ustring \<rightharpoonup> nat)" where
  "count_by_severity fs =
     fold (\<lambda>f m. m(severity f \<mapsto> (case m (severity f) of None \<Rightarrow> 0 | Some c \<Rightarrow> c) + 1))
       fs Map.empty"

definition get_count :: "(ustring \<rightharpoonup> nat) \<Rightarrow> ustring \<Rightarrow> nat" where
  "get_count m sev = (case m sev of None \<Rightarrow> 0 | Some c \<Rightarrow> c)"

text \<open>The dictionary \<open>by_file\<close>, in insertion order: \<^verbatim>\<open>setdefault(f.file, []).append(f)\<close>.\<close>

fun add_by_file ::
  "(ustring \<times> finding list) list \<Rightarrow> finding \<Rightarrow> (ustring \<times> finding list) list" where
  "add_by_file [] f = [(file' f, [f])]"
| "add_by_file ((k, v) # kvs) f =
     (if k = file' f then (k, v @ [f]) # kvs else (k, v) # add_by_file kvs f)"

definition group_by_file :: "finding list \<Rightarrow> (ustring \<times> finding list) list" where
  "group_by_file fs = fold (\<lambda>f m. add_by_file m f) fs []"

definition sev_icon :: "ustring \<Rightarrow> ustring" where
  "sev_icon sev =
     (if sev = u ''critical'' then red_icon
      else if sev = u ''high'' then orange_icon
      else if sev = u ''medium'' then yellow_icon
      else if sev = u ''low'' then blue_icon
      else white_icon)"

definition finding_lines :: "finding \<Rightarrow> ustring list" where
  "finding_lines f =
     [u ''  '' @ sev_icon (severity f) @ u '' Line '' @ str_int (line f) @ u '': '' @ description f,
      u ''     '' @ code_snippet f,
      u ''     '' @ arrow @ u '' '' @ recommendation f]"

definition file_block :: "ustring \<times> finding list \<Rightarrow> ustring list" where
  "file_block kv =
     (page_icon @ u '' '' @ fst kv)
     # concat (map finding_lines (sort_key line (snd kv))) @ [[]]"

definition summary_lines :: "(ustring \<rightharpoonup> nat) \<Rightarrow> ustring list" where
  "summary_lines by_severity =
     concat (map (\<lambda>sev. let count = get_count by_severity sev in
                          if count > 0 then [u ''  '' @ upper sev @ u '': '' @ str_nat count] else [])
               [u ''critical'', u ''high'', u ''medium'', u ''low''])"

definition format_text_report :: "finding list \<Rightarrow> ustring" where
  "format_text_report fs =
     (if fs = [] then no_issues_msg
      else
        let by_severity = count_by_severity fs;
            critical_count = get_count by_severity (u ''critical'');
            high_count = get_count by_severity (u ''high'')
        in join [10]
             ([replicate 60 61, u ''Privacy Scan Results'', replicate 60 61, []]
              @ [u ''Summary:''] @ summary_lines by_severity @ [[]]
              @ concat (map file_block (sort_key fst (group_by_file fs)))
              @ [if critical_count > 0 \<or> high_count > 0 then failed_line else warnings_line]))"

text \<open>The dictionary that \<^verbatim>\<open>format_json_report\<close> builds and hands to \<^verbatim>\<open>json.dumps\<close>.\<close>

record summary =
  total :: nat
  critical :: nat
  high :: nat
  medium :: nat
  low :: nat

record json_report =
  summary :: summary
  passed :: bool
  findings :: "finding list"

definition count_sev :: "finding list \<Rightarrow> ustring \<Rightarrow> nat" where
  "count_sev fs sev = length (filter (\<lambda>f. severity f = sev) fs)"

definition format_json_report :: "finding list \<Rightarrow> json_report" where
  "format_json_report fs =
     \<lparr>summary = \<lparr>total = length fs, critical = count_sev fs (u ''critical''),
                  high = count_sev fs (u ''high''), medium = count_sev fs (u ''medium''),
                  low = count_sev fs (u ''low'')\<rparr>,
      passed = list_all (\<lambda>f. severity f \<notin> set [u ''critical'', u ''high'']) fs,
      findings = fs\<rparr>"

section \<open>File selector\<close>

definition SCAN_EXTENSIONS :: "ustring set" where
  "SCAN_EXTENSIONS = set (map u [''.ts'', ''.tsx'', ''.js'', ''.jsx'', ''.py'', ''.java'', ''.cs'',
     ''.go'', ''.rb'', ''.php'', ''.swift'', ''.kt'', ''.scala'', ''.rs'', ''.cpp'', ''.c'', ''.h''])"

definition SKIP_DIRS :: "ustring set" where
  "SKIP_DIRS = set (map u [''node_modules'', ''vendor'', ''venv'', ''.venv'', ''__pycache__'',
     ''dist'', ''build'', ''.git'', ''.svn'', ''target'', ''bin'', ''obj''])"

text \<open>\<^verbatim>\<open>Path.suffix\<close>: the part of the last component from its last dot, when that dot
  is neither its first nor its last character; 46 is the code of the dot.\<close>

definition suffix_of :: "path \<Rightarrow> ustring" where
  "suffix_of p =
     (if p = [] then []
      else
        let name = last p; ext = rev (takeWhile (\<lambda>c. c \<noteq> 46) (rev name)) in
        if length ext = length name \<or> ext = [] \<or> length name = Suc (length ext) then []
        else 46 # ext)"

definition should_scan_file :: "unicode \<Rightarrow> path \<Rightarrow> bool" where
  "should_scan_file U p =
     (if ulower U (suffix_of p) \<notin> SCAN_EXTENSIONS then False
      else list_all (\<lambda>part. part \<notin> SKIP_DIRS) p)"

text \<open>
  What a path names: a regular file with its text (\<open>None\<close> when it cannot be read), a
  directory with its entries, something else (a device, a socket), or an entry whose
  \<^verbatim>\<open>stat\<close> fails with an error that \<^verbatim>\<open>Path.is_file\<close> does not swallow (a name that is
  too long, a directory that may not be searched).
\<close>

datatype fsnode =
    RegFile "ustring option"
  | Directory "(ustring \<times> fsnode) list"
  | Special
  | Unstatable

text \<open>\<^verbatim>\<open>root.rglob('*')\<close>: the entries of the directory, then those of each of its
  subdirectories in turn, each with what it names.\<close>

fun rglob :: "path \<Rightarrow> (ustring \<times> fsnode) list \<Rightarrow> (path \<times> fsnode) list"
  and rglob_below :: "path \<Rightarrow> (ustring \<times> fsnode) list \<Rightarrow> (path \<times> fsnode) list" where
  "rglob p es = map (\<lambda>(name, node). (p @ [name], node)) es @ rglob_below p es"
| "rglob_below p [] = []"
| "rglob_below p ((name, Directory ds) # es) = rglob (p @ [name]) ds @ rglob_below p es"
| "rglob_below p ((name, RegFile c) # es) = rglob_below p es"
| "rglob_below p ((name, Special) # es) = rglob_below p es"
| "rglob_below p ((name, Unstatable) # es) = rglob_below p es"

text \<open>The loop of \<^verbatim>\<open>get_files\<close> over the paths of \<^verbatim>\<open>rglob\<close>: \<^verbatim>\<open>is_file()\<close> raises on an
  entry that cannot be examined.\<close>

fun select_files ::
  "unicode \<Rightarrow> (path \<times> fsnode) list \<Rightarrow> error + (path \<times> ustring option) list" where
  "select_files U [] = Inr []"
| "select_files U ((file_path, node) # rest) =
     (case node of
        Unstatable \<Rightarrow> Inl OSError
      | RegFile content \<Rightarrow>
          (case select_files U rest of
             Inl e \<Rightarrow> Inl e
           | Inr r \<Rightarrow> Inr (if should_scan_file U file_path then (file_path, content) # r else r))
      | _ \<Rightarrow> select_files U rest)"

text \<open>
  \<^verbatim>\<open>get_files\<close>: the files yielded, each with the text \<^verbatim>\<open>read_text\<close> gives for it.
  The argument \<open>root\<close> is what the root path names; it is \<open>None\<close> when nothing is
  there (\<^verbatim>\<open>stat\<close> fails with an error that \<^verbatim>\<open>is_file\<close> and \<^verbatim>\<open>is_dir\<close> take for absence).
\<close>

definition get_files ::
  "unicode \<Rightarrow> path \<Rightarrow> fsnode option \<Rightarrow> error + (path \<times> ustring option) list" where
  "get_files U p root =
     (case root of
        None \<Rightarrow> Inr []
      | Some Unstatable \<Rightarrow> Inl OSError
      | Some (RegFile content) \<Rightarrow> Inr (if should_scan_file U p then [(p, content)] else [])
      | Some (Directory es) \<Rightarrow> select_files U (rglob p es)
      | Some Special \<Rightarrow> Inr [])"

section \<open>Driver\<close>

record args =
  path :: path
  output' :: ustring
  min_severity :: ustring

datatype report = TextOut ustring | JsonOut json_report

record outcome =
  stdout :: report
  exit_code :: int

definition exit_status :: "finding list \<Rightarrow> int" where
  "exit_status fs =
     (let critical_high = length (filter (\<lambda>f. severity f \<in> set [u ''critical'', u ''high'']) fs)
      in if critical_high > 0 then 1 else 0)"

text \<open>
  \<^verbatim>\<open>main\<close>. The argument parser rejects an output format or a severity outside its
  choices (a usage error); an exception that escapes is the error value. \<open>can_print\<close>
  tells whether the encoding of the standard output has every character of a text:
  \<^verbatim>\<open>print\<close> raises otherwise. The structured report is printed in ASCII, which
  \<^verbatim>\<open>json.dumps\<close> produces by default.
\<close>

definition main ::
  "unicode \<Rightarrow> (ustring \<Rightarrow> bool) \<Rightarrow> fsnode option \<Rightarrow> args \<Rightarrow> error + outcome" where
  "main U can_print root a =
     (if output' a \<notin> set [u ''text'', u ''json''] \<or> min_severity a \<notin> set severity_order
      then Inl UsageError
      else
        case get_files U (path a) root of
          Inl e \<Rightarrow> Inl e
        | Inr files \<Rightarrow>
            let all_findings =
                  concat (map (\<lambda>(file_path, content). scan_file U file_path content) files);
                fs0 = deduplicate_findings all_findings
            in case filter_by_severity fs0 (min_severity a) of
                 Inl e \<Rightarrow> Inl e
               | Inr fs1 \<Rightarrow>
                   (case sort_findings fs1 of
                      Inl e \<Rightarrow> Inl e
                    | Inr fs2 \<Rightarrow>
                        if output' a = u ''json''
                        then Inr \<lparr>stdout = JsonOut (format_json_report fs2),
                                  exit_code = exit_status fs2\<rparr>
                        else if can_print (format_text_report fs2)
                        then Inr \<lparr>stdout = TextOut (format_text_report fs2),
                                  exit_code = exit_status fs2\<rparr>
                        else Inl UnicodeEncodeError))"

section \<open>Reference definitions\<close>

text \<open>The deduplication key of a finding.\<close>

definition key_of :: "finding \<Rightarrow> ustring \<times> int \<times> ustring" where
  "key_of f = (file' f, line f, category f)"

text \<open>The first occurrence of each key, in the order of the list: the elements whose key
  no earlier element has.\<close>

definition first_occurrences :: "finding list \<Rightarrow> finding list" where
  "first_occurrences fs =
     map (\<lambda>i. fs ! i)
       (filter (\<lambda>i. list_all (\<lambda>j. key_of (fs ! j) \<noteq> key_of (fs ! i)) [0..<i]) [0..<length fs])"

text \<open>The elements of a list whose key is neither in \<open>S\<close> nor carried by an earlier element.\<close>

fun keep_first :: "finding list \<Rightarrow> (ustring \<times> int \<times> ustring) set \<Rightarrow> finding list" where
  "keep_first [] S = []"
| "keep_first (f # fs) S =
     (if key_of f \<in> S then keep_first fs S else f # keep_first fs (insert (key_of f) S))"

text \<open>The rank of a severity: critical = 0, high = 1, medium = 2, low = 3.\<close>

definition sev_rank :: "ustring \<Rightarrow> nat" where
  "sev_rank s =
     (if s = u ''critical'' then 0 else if s = u ''high'' then 1
      else if s = u ''medium'' then 2 else 3)"

definition valid_severity :: "ustring \<Rightarrow> bool" where
  "valid_severity s = (s \<in> set [u ''critical'', u ''high'', u ''medium'', u ''low''])"

text \<open>The sort key in the words of the specification: severity rank, file path, line.\<close>

definition rank_key :: "finding \<Rightarrow> nat \<times> ustring \<times> int" where
  "rank_key f = (sev_rank (severity f), file' f, line f)"

text \<open>The last line of a printed text.\<close>

definition last_line :: "ustring \<Rightarrow> ustring" where
  "last_line s = last (split_nl s)"

text \<open>No finding is critical or high.\<close>

definition no_critical_high :: "finding list \<Rightarrow> bool" where
  "no_critical_high fs =
     list_all (\<lambda>f. severity f \<noteq> u ''critical'' \<and> severity f \<noteq> u ''high'') fs"

section \<open>Example inputs\<close>

definition mk_finding :: "string \<Rightarrow> int \<Rightarrow> string \<Rightarrow> string \<Rightarrow> finding" where
  "mk_finding fp n sev cat =
     \<lparr>file' = u fp, line = n, severity = u sev, category = u cat, description = u ''d'',
      code_snippet = u ''c'', recommendation = u ''r''\<rparr>"

definition sample_findings :: "finding list" where
  "sample_findings =
     [mk_finding ''b.py'' 3 ''low'' ''pii_field'',
      mk_finding ''a.py'' 7 ''critical'' ''unencrypted_pii'',
      mk_finding ''b.py'' 1 ''medium'' ''pii_field'',
      mk_finding ''a.py'' 2 ''high'' ''pii_in_logs'',
      mk_finding ''a.py'' 7 ''critical'' ''pii_field'']"

definition warning_findings :: "finding list" where
  "warning_findings =
     [mk_finding ''b.py'' 1 ''medium'' ''pii_field'', mk_finding ''b.py'' 3 ''low'' ''pii_field'']"

definition missing_args :: args where
  "missing_args = \<lparr>path = [u ''no_such_dir''], output' = u ''text'', min_severity = u ''low''\<rparr>"

definition empty_json_report :: json_report where
  "empty_json_report =
     \<lparr>summary = \<lparr>total = 0, critical = 0, high = 0, medium = 0, low = 0\<rparr>,
      passed = True, findings = []\<rparr>"

text \<open>A standard output whose encoding has every character.\<close>

definition any_text :: "ustring \<Rightarrow> bool" where
  "any_text t = True"

section \<open>Matches by text\<close>

text \<open>Starting right after the text \<open>a\<close>, the pattern \<open>r\<close> can match exactly the text \<open>w\<close>
  of the line \<open>a @ w @ rest\<close>.\<close>

definition spans :: "unicode \<Rightarrow> regex \<Rightarrow> ustring \<Rightarrow> ustring \<Rightarrow> ustring \<Rightarrow> bool" where
  "spans U r a w rest = (length a + length w \<in> set (rmatch U r (a @ w @ rest) (length a)))"

text \<open>Text made of ASCII characters only.\<close>

definition is_ascii :: "ustring \<Rightarrow> bool" where
  "is_ascii s = list_all (\<lambda>c. c < 128) s"

text \<open>A file of comment lines that name sensitive fields, with a blank line and a final
  line break.\<close>

definition comment_file :: ustring where
  "comment_file = u ''# password = ssn'' @ [10, 10] @ u ''  // db.save(ssn)'' @ [10]
     @ u '' * print(email)'' @ [10]"

text \<open>The codes of the letters a to z.\<close>

definition lower_letter :: "nat \<Rightarrow> bool" where
  "lower_letter c = (97 \<le> c \<and> c \<le> 122)"

text \<open>The tokens of the Credential field rule.\<close>

definition credential_tokens :: "string list" where
  "credential_tokens = [''password'', ''passwd'', ''pwd'', ''secret'', ''api_key'', ''apikey'', ''token'']"

text \<open>A finding of category \<open>pii_field\<close> for the PII type Credential.\<close>

definition is_credential_finding :: "finding \<Rightarrow> bool" where
  "is_credential_finding f =
     (category f = u ''pii_field'' \<and> description f = u ''Potential Credential field detected'')"

section \<open>Literals\<close>

lemma u_eq_iff [simp]: "u s = u t \<longleftrightarrow> s = t"
  unfolding u_def by (simp add: inj_map_eq_map inj_on_def)

lemma u_Nil [simp]: "u [] = []"
  by (simp add: u_def)

lemma u_eq_Nil [simp]: "u s = [] \<longleftrightarrow> s = []"
  by (simp add: u_def)

lemma u_append: "u (a @ b) = u a @ u b"
  by (simp add: u_def)

lemma length_u [simp]: "length (u s) = length s"
  by (simp add: u_def)

section \<open>Deduplication\<close>

lemma dedup_loop_keep_first: "dedup_loop fs seen unique = unique @ keep_first fs seen"
  by (induction fs arbitrary: seen unique) (simp_all add: key_of_def Let_def)

lemma deduplicate_keep_first: "deduplicate_findings fs = keep_first fs {}"
  by (simp add: deduplicate_findings_def dedup_loop_keep_first)

lemma keep_first_keys: "key_of ` set (keep_first fs S) = key_of ` set fs - S"
  by (induction fs arbitrary: S) auto

lemma keep_first_distinct: "distinct (map key_of (keep_first fs S))"
proof (induction fs arbitrary: S)
  case Nil
  then show ?case by simp
next
  case (Cons f fs)
  have "key_of f \<notin> key_of ` set (keep_first fs (insert (key_of f) S))"
    by (simp add: keep_first_keys)
  with Cons show ?case by simp
qed

lemma keep_first_id:
  "distinct (map key_of fs) \<Longrightarrow> key_of ` set fs \<inter> S = {} \<Longrightarrow> keep_first fs S = fs"
proof (induction fs arbitrary: S)
  case Nil
  then show ?case by simp
next
  case (Cons f fs)
  from Cons.prems have "key_of ` set fs \<inter> insert (key_of f) S = {}" by auto
  with Cons show ?case by auto
qed

lemma keep_first_idem: "keep_first (keep_first fs S) S = keep_first fs S"
proof (rule keep_first_id)
  show "distinct (map key_of (keep_first fs S))" by (rule keep_first_distinct)
  show "key_of ` set (keep_first fs S) \<inter> S = {}" by (auto simp: keep_first_keys)
qed

lemma keep_first_subseq: "subseq (keep_first fs S) fs"
  by (induction fs arbitrary: S) auto

lemma keep_first_index:
  "keep_first fs S =
     map (\<lambda>i. fs ! i)
       (filter (\<lambda>i. key_of (fs ! i) \<notin> S \<and> (\<forall>j<i. key_of (fs ! j) \<noteq> key_of (fs ! i)))
          [0..<length fs])"
proof (induction fs arbitrary: S)
  case Nil
  then show ?case by simp
next
  case (Cons f fs)
  have up: "[0..<length (f # fs)] = 0 # map Suc [0..<length fs]"
    by (simp add: upt_conv_Cons map_Suc_upt del: upt_Suc)
  have all_Suc: "\<And>i P. (\<forall>j<Suc i. P j) \<longleftrightarrow> P 0 \<and> (\<forall>j<i. P (Suc j))"
    by (metis less_Suc_eq_0_disj)
  show ?case
  proof (cases "key_of f \<in> S")
    case True
    have "filter (\<lambda>i. key_of ((f # fs) ! i) \<notin> S \<and> (\<forall>j<i. key_of ((f # fs) ! j) \<noteq> key_of ((f # fs) ! i)))
            (map Suc [0..<length fs])
          = map Suc (filter (\<lambda>i. key_of (fs ! i) \<notin> S \<and> (\<forall>j<i. key_of (fs ! j) \<noteq> key_of (fs ! i)))
              [0..<length fs])"
      using True by (auto simp: filter_map o_def all_Suc intro!: filter_cong arg_cong[where f="map Suc"])
    with True show ?thesis
      unfolding up by (simp add: Cons.IH o_def)
  next
    case False
    have "filter (\<lambda>i. key_of ((f # fs) ! i) \<notin> S \<and> (\<forall>j<i. key_of ((f # fs) ! j) \<noteq> key_of ((f # fs) ! i)))
            (map Suc [0..<length fs])
          = map Suc (filter (\<lambda>i. key_of (fs ! i) \<notin> insert (key_of f) S
                                  \<and> (\<forall>j<i. key_of (fs ! j) \<noteq> key_of (fs ! i)))
              [0..<length fs])"
      by (auto simp: filter_map o_def all_Suc intro!: filter_cong arg_cong[where f="map Suc"])
    with False show ?thesis
      unfolding up by (simp add: Cons.IH o_def)
  qed
qed

lemma keep_first_first_occurrences: "keep_first fs {} = first_occurrences fs"
proof -
  have "\<And>i. list_all (\<lambda>j. key_of (fs ! j) \<noteq> key_of (fs ! i)) [0..<i]
          \<longleftrightarrow> (\<forall>j<i. key_of (fs ! j) \<noteq> key_of (fs ! i))"
    by (auto simp: list_all_iff)
  then show ?thesis
    by (simp add: keep_first_index first_occurrences_def)
qed

text \<open>
  Claim C4. Deduplication returns the first occurrence of each \<open>(file, line, category)\<close>
  key, in the order of the input, as a subsequence of the input; applying it twice is
  applying it once; no two findings of its output have the same key.
\<close>

theorem deduplicate_first_occurrences:
  "deduplicate_findings fs = first_occurrences fs
   \<and> subseq (deduplicate_findings fs) fs
   \<and> deduplicate_findings (deduplicate_findings fs) = deduplicate_findings fs
   \<and> distinct (map key_of (deduplicate_findings fs))"
  by (simp add: deduplicate_keep_first keep_first_first_occurrences [symmetric]
      keep_first_subseq keep_first_idem keep_first_distinct)

theorem deduplicate_first_occurrences_witness:
  "deduplicate_findings
     [mk_finding ''a.py'' 1 ''high'' ''pii_field'',
      mk_finding ''a.py'' 1 ''critical'' ''pii_field'',
      mk_finding ''a.py'' 1 ''high'' ''pii_in_logs'',
      mk_finding ''a.py'' 1 ''critical'' ''pii_field'']
   = [mk_finding ''a.py'' 1 ''high'' ''pii_field'', mk_finding ''a.py'' 1 ''high'' ''pii_in_logs'']"
proof -
  have "first_occurrences
     [mk_finding ''a.py'' 1 ''high'' ''pii_field'',
      mk_finding ''a.py'' 1 ''critical'' ''pii_field'',
      mk_finding ''a.py'' 1 ''high'' ''pii_in_logs'',
      mk_finding ''a.py'' 1 ''critical'' ''pii_field'']
   = [mk_finding ''a.py'' 1 ''high'' ''pii_field'', mk_finding ''a.py'' 1 ''high'' ''pii_in_logs'']"
    by code_simp
  with deduplicate_first_occurrences
    [of "[mk_finding ''a.py'' 1 ''high'' ''pii_field'',
      mk_finding ''a.py'' 1 ''critical'' ''pii_field'',
      mk_finding ''a.py'' 1 ''high'' ''pii_in_logs'',
      mk_finding ''a.py'' 1 ''critical'' ''pii_field'']"]
  show ?thesis by simp
qed

section \<open>Severity filter\<close>

lemma index_of_severity_order:
  "valid_severity s \<Longrightarrow> index_of severity_order s = Inr (sev_rank s)"
  by (auto simp: valid_severity_def severity_order_def sev_rank_def)

lemma lower_valid_severity: "valid_severity s \<Longrightarrow> lower s = s"
  by (auto simp: valid_severity_def lower_def ascii_lower_def u_def)

lemma filter_loop_filter:
  "\<forall>f \<in> set fs. valid_severity (severity f) \<Longrightarrow>
   filter_loop fs m = Inr (filter (\<lambda>f. sev_rank (severity f) \<le> m) fs)"
  by (induction fs) (simp_all add: index_of_severity_order)

lemma filter_by_severity_filter:
  "\<forall>f \<in> set fs. valid_severity (severity f) \<Longrightarrow> valid_severity s \<Longrightarrow>
   filter_by_severity fs s = Inr (filter (\<lambda>f. sev_rank (severity f) \<le> sev_rank s) fs)"
  by (simp add: filter_by_severity_def lower_valid_severity index_of_severity_order
      filter_loop_filter)

lemma sev_rank_le_3: "valid_severity s \<Longrightarrow> sev_rank s \<le> 3"
  by (auto simp: valid_severity_def sev_rank_def)

text \<open>
  Claim C5. For findings whose severities are among the four levels and a threshold
  among the four levels, the filter keeps exactly the findings whose rank is at most the
  rank of the threshold (at least as severe); filtering the result again with the same
  threshold changes nothing; the threshold \<open>low\<close> keeps the whole list.
\<close>

theorem filter_by_severity_rank:
  assumes "\<forall>f \<in> set fs. valid_severity (severity f)" and "valid_severity s"
  shows "filter_by_severity fs s = Inr (filter (\<lambda>f. sev_rank (severity f) \<le> sev_rank s) fs)
    \<and> (\<exists>r. filter_by_severity fs s = Inr r \<and> filter_by_severity r s = Inr r)
    \<and> filter_by_severity fs (u ''low'') = Inr fs"
proof (intro conjI)
  let ?r = "filter (\<lambda>f. sev_rank (severity f) \<le> sev_rank s) fs"
  show first: "filter_by_severity fs s = Inr ?r"
    using assms by (rule filter_by_severity_filter)
  have "\<forall>f \<in> set ?r. valid_severity (severity f)" using assms(1) by simp
  then have "filter_by_severity ?r s = Inr (filter (\<lambda>f. sev_rank (severity f) \<le> sev_rank s) ?r)"
    using assms(2) by (rule filter_by_severity_filter)
  then have "filter_by_severity ?r s = Inr ?r" by simp
  with first show "\<exists>r. filter_by_severity fs s = Inr r \<and> filter_by_severity r s = Inr r"
    by blast
  have low: "valid_severity (u ''low'')" by (simp add: valid_severity_def)
  have "filter (\<lambda>f. sev_rank (severity f) \<le> sev_rank (u ''low'')) fs = fs"
  proof (rule filter_True)
    show "\<forall>f \<in> set fs. sev_rank (severity f) \<le> sev_rank (u ''low'')"
      using assms(1) sev_rank_le_3 by (auto simp: sev_rank_def)
  qed
  with filter_by_severity_filter [OF assms(1) low]
  show "filter_by_severity fs (u ''low'') = Inr fs" by simp
qed

theorem filter_by_severity_rank_witness:
  "filter_by_severity sample_findings (u ''high'')
     = Inr [mk_finding ''a.py'' 7 ''critical'' ''unencrypted_pii'',
            mk_finding ''a.py'' 2 ''high'' ''pii_in_logs'',
            mk_finding ''a.py'' 7 ''critical'' ''pii_field'']
   \<and> filter_by_severity sample_findings (u ''low'') = Inr sample_findings"
proof -
  have v: "\<forall>f \<in> set sample_findings. valid_severity (severity f)"
    by (simp add: sample_findings_def mk_finding_def valid_severity_def)
  have h: "valid_severity (u ''high'')" by (simp add: valid_severity_def)
  have "filter (\<lambda>f. sev_rank (severity f) \<le> sev_rank (u ''high'')) sample_findings
     = [mk_finding ''a.py'' 7 ''critical'' ''unencrypted_pii'',
        mk_finding ''a.py'' 2 ''high'' ''pii_in_logs'',
        mk_finding ''a.py'' 7 ''critical'' ''pii_field'']"
    by (simp add: sample_findings_def mk_finding_def sev_rank_def)
  with filter_by_severity_rank [OF v h] show ?thesis by simp
qed

section \<open>Final sort\<close>

lemma sort_key_of_valid:
  "valid_severity (severity f) \<Longrightarrow> sort_key_of f = Inr (rank_key f)"
  by (simp add: sort_key_of_def index_of_severity_order rank_key_def)

lemma decorate_valid:
  "\<forall>f \<in> set fs. valid_severity (severity f) \<Longrightarrow>
   decorate fs = Inr (map (\<lambda>f. (rank_key f, f)) fs)"
  by (induction fs) (simp_all add: sort_key_of_valid)

lemma insort_key_decorated:
  "insort_key fst (k x, x) (map (\<lambda>f. (k f, f)) ys) = map (\<lambda>f. (k f, f)) (insort_key k x ys)"
  by (induction ys) simp_all

lemma sort_key_decorated:
  "sort_key fst (map (\<lambda>f. (k f, f)) xs) = map (\<lambda>f. (k f, f)) (sort_key k xs)"
  by (induction xs) (simp_all add: insort_key_decorated)

lemma sort_findings_valid:
  assumes "\<forall>f \<in> set fs. valid_severity (severity f)"
  shows "sort_findings fs = Inr (sort_key rank_key fs)"
  by (simp add: sort_findings_def decorate_valid [OF assms] sort_key_decorated o_def)

lemma rank_key_le:
  "rank_key f \<le> rank_key g \<Longrightarrow>
   sev_rank (severity f) \<le> sev_rank (severity g)
   \<and> (severity f = severity g \<longrightarrow>
        file' f \<le> file' g \<and> (file' f = file' g \<longrightarrow> line f \<le> line g))"
  by (auto simp: rank_key_def)

text \<open>
  Claim C6. For findings whose severities are among the four levels, the final sort
  returns a permutation of its input, ascending in the key (severity rank, file path,
  line): ranks never decrease; within one severity file paths never decrease; within one
  severity and file line numbers never decrease; and findings with equal keys keep their
  input order.
\<close>

theorem sort_findings_stable_ascending:
  assumes "\<forall>f \<in> set fs. valid_severity (severity f)"
  shows "\<exists>out. sort_findings fs = Inr out
    \<and> mset out = mset fs
    \<and> sorted (map rank_key out)
    \<and> (\<forall>i j. i < j \<and> j < length out \<longrightarrow>
          sev_rank (severity (out ! i)) \<le> sev_rank (severity (out ! j))
          \<and> (severity (out ! i) = severity (out ! j) \<longrightarrow>
               file' (out ! i) \<le> file' (out ! j)
               \<and> (file' (out ! i) = file' (out ! j) \<longrightarrow> line (out ! i) \<le> line (out ! j))))
    \<and> (\<forall>k. filter (\<lambda>f. rank_key f = k) out = filter (\<lambda>f. rank_key f = k) fs)"
proof -
  let ?out = "sort_key rank_key fs"
  have res: "sort_findings fs = Inr ?out" using assms by (rule sort_findings_valid)
  have perm: "mset ?out = mset fs" by simp
  have srt: "sorted (map rank_key ?out)" by simp
  have pairs: "\<forall>i j. i < j \<and> j < length ?out \<longrightarrow>
          sev_rank (severity (?out ! i)) \<le> sev_rank (severity (?out ! j))
          \<and> (severity (?out ! i) = severity (?out ! j) \<longrightarrow>
               file' (?out ! i) \<le> file' (?out ! j)
               \<and> (file' (?out ! i) = file' (?out ! j) \<longrightarrow> line (?out ! i) \<le> line (?out ! j)))"
  proof (intro allI impI)
    fix i j assume ij: "i < j \<and> j < length ?out"
    then have "map rank_key ?out ! i \<le> map rank_key ?out ! j"
      using srt by (simp add: sorted_iff_nth_mono del: sorted_sort_key)
    then have "rank_key (?out ! i) \<le> rank_key (?out ! j)" using ij by simp
    then show "sev_rank (severity (?out ! i)) \<le> sev_rank (severity (?out ! j))
          \<and> (severity (?out ! i) = severity (?out ! j) \<longrightarrow>
               file' (?out ! i) \<le> file' (?out ! j)
               \<and> (file' (?out ! i) = file' (?out ! j) \<longrightarrow> line (?out ! i) \<le> line (?out ! j)))"
      by (rule rank_key_le)
  qed
  have stable: "\<forall>k. filter (\<lambda>f. rank_key f = k) ?out = filter (\<lambda>f. rank_key f = k) fs"
    by (simp add: sort_key_stable)
  from res perm srt pairs stable show ?thesis by blast
qed

theorem sort_findings_stable_ascending_witness:
  "sort_findings sample_findings
     = Inr [mk_finding ''a.py'' 7 ''critical'' ''unencrypted_pii'',
            mk_finding ''a.py'' 7 ''critical'' ''pii_field'',
            mk_finding ''a.py'' 2 ''high'' ''pii_in_logs'',
            mk_finding ''b.py'' 1 ''medium'' ''pii_field'',
            mk_finding ''b.py'' 3 ''low'' ''pii_field'']"
proof -
  have v: "\<forall>f \<in> set sample_findings. valid_severity (severity f)"
    by (simp add: sample_findings_def mk_finding_def valid_severity_def)
  have e: "sort_findings sample_findings
     = Inr [mk_finding ''a.py'' 7 ''critical'' ''unencrypted_pii'',
            mk_finding ''a.py'' 7 ''critical'' ''pii_field'',
            mk_finding ''a.py'' 2 ''high'' ''pii_in_logs'',
            mk_finding ''b.py'' 1 ''medium'' ''pii_field'',
            mk_finding ''b.py'' 3 ''low'' ''pii_field'']"
    by code_simp
  from sort_findings_stable_ascending [OF v] e show ?thesis by simp
qed

section \<open>Verdict\<close>

lemma split_nl_nonempty: "split_nl s \<noteq> []"
  by (induction s) (simp_all add: Let_def)

lemma split_nl_no_newline: "10 \<notin> set l \<Longrightarrow> split_nl l = [l]"
  by (induction l) (auto simp: Let_def)

lemma split_nl_two: "\<exists>x y zs. split_nl (a @ 10 # l) = x # y # zs"
proof (induction a)
  case Nil
  obtain y zs where "split_nl l = y # zs"
    using split_nl_nonempty [of l] by (cases "split_nl l") auto
  then show ?case by simp
next
  case (Cons c a)
  then obtain x y zs where "split_nl (a @ 10 # l) = x # y # zs" by blast
  then show ?case by (simp add: Let_def)
qed

lemma last_split_nl_append: "last (split_nl (a @ 10 # l)) = last (split_nl l)"
proof (induction a)
  case Nil
  then show ?case by (simp add: split_nl_nonempty)
next
  case (Cons c a)
  obtain x y zs where e: "split_nl (a @ 10 # l) = x # y # zs"
    using split_nl_two by blast
  with Cons show ?case by (simp add: Let_def)
qed

lemma join_snoc:
  "xs \<noteq> [] \<Longrightarrow> join sep (xs @ [l]) = join sep xs @ sep @ l"
proof (induction xs)
  case Nil
  then show ?case by simp
next
  case (Cons x xs)
  then show ?case by (cases xs) simp_all
qed

lemma last_line_join:
  assumes "xs \<noteq> []" and "10 \<notin> set l"
  shows "last_line (join [10] (xs @ [l])) = l"
proof -
  have "join [10] (xs @ [l]) = join [10] xs @ 10 # l"
    using assms(1) by (simp add: join_snoc)
  then show ?thesis
    by (simp add: last_line_def last_split_nl_append split_nl_no_newline [OF assms(2)])
qed

lemma get_count_bump:
  "get_count (m(k \<mapsto> (case m k of None \<Rightarrow> 0 | Some c \<Rightarrow> c) + 1)) sev
     = get_count m sev + (if k = sev then 1 else 0)"
  by (simp add: get_count_def)

lemma fold_count_by_severity:
  "get_count (fold (\<lambda>f m. m(severity f \<mapsto> (case m (severity f) of None \<Rightarrow> 0 | Some c \<Rightarrow> c) + 1)) fs m) sev
     = get_count m sev + count_sev fs sev"
proof (induction fs arbitrary: m)
  case Nil
  then show ?case by (simp add: count_sev_def)
next
  case (Cons f fs)
  let ?m' = "m(severity f \<mapsto> (case m (severity f) of None \<Rightarrow> 0 | Some c \<Rightarrow> c) + 1)"
  have "get_count (fold (\<lambda>f m. m(severity f \<mapsto> (case m (severity f) of None \<Rightarrow> 0 | Some c \<Rightarrow> c) + 1)) (f # fs) m) sev
      = get_count ?m' sev + count_sev fs sev"
    using Cons.IH [of ?m'] by (simp only: fold_simps o_apply)
  also have "get_count ?m' sev = get_count m sev + (if severity f = sev then 1 else 0)"
    by (rule get_count_bump)
  finally show ?case by (simp add: count_sev_def)
qed

lemma get_count_by_severity: "get_count (count_by_severity fs) sev = count_sev fs sev"
proof -
  have "get_count (count_by_severity fs) sev = get_count Map.empty sev + count_sev fs sev"
    unfolding count_by_severity_def by (rule fold_count_by_severity)
  then show ?thesis by (simp add: get_count_def)
qed

lemma count_sev_pos: "0 < count_sev fs sev \<longleftrightarrow> (\<exists>f \<in> set fs. severity f = sev)"
  by (auto simp: count_sev_def filter_empty_conv)

lemma failed_line_no_newline: "10 \<notin> set failed_line"
  by (simp add: failed_line_def cross_mark_def u_def)

lemma warnings_line_no_newline: "10 \<notin> set warnings_line"
  by (simp add: warnings_line_def warning_sign_def u_def)

lemma no_issues_no_newline: "10 \<notin> set no_issues_msg"
  by (simp add: no_issues_msg_def check_mark_def u_def)

lemma status_lines_differ:
  "failed_line \<noteq> warnings_line" "no_issues_msg \<noteq> failed_line" "no_issues_msg \<noteq> warnings_line"
  by (simp_all add: failed_line_def warnings_line_def no_issues_msg_def cross_mark_def
      warning_sign_def check_mark_def)

lemma text_report_last_line:
  "last_line (format_text_report fs) =
     (if fs = [] then no_issues_msg
      else if no_critical_high fs then warnings_line else failed_line)"
proof (cases "fs = []")
  case True
  then show ?thesis
    by (simp add: format_text_report_def last_line_def split_nl_no_newline no_issues_no_newline)
next
  case False
  let ?failed = "0 < count_sev fs (u ''critical'') \<or> 0 < count_sev fs (u ''high'')"
  let ?status = "if ?failed then failed_line else warnings_line"
  define body where "body =
    [replicate 60 61, u ''Privacy Scan Results'', replicate 60 61, []]
    @ [u ''Summary:''] @ summary_lines (count_by_severity fs) @ [[]]
    @ concat (map file_block (sort_key fst (group_by_file fs)))"
  have body: "body \<noteq> []" by (simp add: body_def)
  have rep: "format_text_report fs = join [10] (body @ [?status])"
    using False
    by (simp add: format_text_report_def Let_def get_count_by_severity body_def)
  have nl: "10 \<notin> set ?status"
    by (simp add: failed_line_no_newline warnings_line_no_newline)
  have "last_line (format_text_report fs) = ?status"
    unfolding rep using body nl by (rule last_line_join)
  moreover have "?failed \<longleftrightarrow> \<not> no_critical_high fs"
    by (auto simp: count_sev_pos no_critical_high_def list_all_iff)
  ultimately show ?thesis using False by simp
qed

lemma json_passed: "passed (format_json_report fs) \<longleftrightarrow> no_critical_high fs"
  by (simp add: format_json_report_def no_critical_high_def list_all_iff)

lemma exit_status_zero: "exit_status fs = (if no_critical_high fs then 0 else 1)"
  by (auto simp: exit_status_def Let_def no_critical_high_def list_all_iff filter_empty_conv)

text \<open>
  Claim C2. For every list of findings the three verdicts agree: the field \<open>passed\<close> of
  the structured report is true, the text report is the no-issues message (empty list)
  or ends with the passed-with-warnings line, and the exit code is 0, each exactly when
  no finding is critical or high; otherwise the text report ends with the failure line
  and the exit code is 1.
\<close>

theorem verdict_signals_agree:
  "(passed (format_json_report fs) \<longleftrightarrow> no_critical_high fs)
   \<and> (exit_status fs = 0 \<longleftrightarrow> no_critical_high fs)
   \<and> (exit_status fs = 1 \<longleftrightarrow> \<not> no_critical_high fs)
   \<and> ((if fs = [] then format_text_report fs = no_issues_msg
        else last_line (format_text_report fs) = warnings_line) \<longleftrightarrow> no_critical_high fs)
   \<and> (last_line (format_text_report fs) = failed_line \<longleftrightarrow> \<not> no_critical_high fs)"
proof -
  have e: "fs = [] \<Longrightarrow> no_critical_high fs" by (simp add: no_critical_high_def)
  have t: "fs = [] \<Longrightarrow> format_text_report fs = no_issues_msg"
    by (simp add: format_text_report_def)
  show ?thesis
    using e t status_lines_differ
    by (auto simp: json_passed exit_status_zero text_report_last_line)
qed

theorem verdict_signals_agree_witness:
  "\<not> passed (format_json_report sample_findings)
   \<and> exit_status sample_findings = 1
   \<and> last_line (format_text_report sample_findings) = failed_line
   \<and> passed (format_json_report warning_findings)
   \<and> exit_status warning_findings = 0
   \<and> last_line (format_text_report warning_findings) = warnings_line"
proof -
  have a: "\<not> no_critical_high sample_findings"
    by (simp add: no_critical_high_def sample_findings_def mk_finding_def)
  have b: "no_critical_high warning_findings"
    by (simp add: no_critical_high_def warning_findings_def mk_finding_def)
  have c: "warning_findings \<noteq> []" by (simp add: warning_findings_def)
  from verdict_signals_agree [of sample_findings] verdict_signals_agree [of warning_findings] a b c
  show ?thesis by simp
qed

section \<open>Root path that names no file or directory\<close>

lemma get_files_no_root:
  "root = None \<or> root = Some Special \<Longrightarrow> get_files U p root = Inr []"
  by (auto simp: get_files_def)

lemma main_no_findings:
  assumes "get_files U (path a) root = Inr []"
    and "output' a = u ''text'' \<or> output' a = u ''json''"
    and "valid_severity (min_severity a)"
    and "output' a = u ''json'' \<or> can_print no_issues_msg"
  shows "main U can_print root a =
     Inr \<lparr>stdout = (if output' a = u ''json'' then JsonOut empty_json_report
                     else TextOut no_issues_msg),
          exit_code = 0\<rparr>"
proof -
  have flags: "\<not> (output' a \<notin> set [u ''text'', u ''json''] \<or> min_severity a \<notin> set severity_order)"
    using assms(2,3) by (auto simp: valid_severity_def severity_order_def)
  have filt: "filter_by_severity [] (min_severity a) = Inr []"
    using assms(3)
    by (simp add: filter_by_severity_def lower_valid_severity index_of_severity_order)
  have srt: "sort_findings [] = Inr []" by (simp add: sort_findings_def)
  have js: "format_json_report [] = empty_json_report"
    by (simp add: format_json_report_def empty_json_report_def count_sev_def)
  have tx: "format_text_report [] = no_issues_msg" by (simp add: format_text_report_def)
  have ex: "exit_status [] = 0" by (simp add: exit_status_def)
  have dd: "deduplicate_findings [] = []" by (simp add: deduplicate_findings_def)
  show ?thesis
  proof (cases "output' a = u ''json''")
    case True
    then show ?thesis
      unfolding main_def using flags
      by (simp only: if_False assms(1) list.map concat.simps Let_def dd filt srt js ex
          sum.case) simp
  next
    case False
    with assms(4) have "can_print no_issues_msg" by blast
    with False show ?thesis
      unfolding main_def using flags
      by (simp only: if_False assms(1) list.map concat.simps Let_def dd filt srt tx ex
          sum.case) simp
  qed
qed

lemma unstatable_root_raises:
  assumes "output' a = u ''text'' \<or> output' a = u ''json''"
    and "valid_severity (min_severity a)"
  shows "main U can_print (Some Unstatable) a = Inl OSError"
proof -
  have "\<not> (output' a \<notin> set [u ''text'', u ''json''] \<or> min_severity a \<notin> set severity_order)"
    using assms by (auto simp: valid_severity_def severity_order_def)
  then show ?thesis by (simp add: main_def get_files_def)
qed

text \<open>
  Claim C1, as stated, fails: for a root path that does not exist the run is no usage
  error; it prints the no-issues message and exits with code 0.
\<close>

theorem missing_root_is_no_usage_error:
  "main ascii_unicode any_text None missing_args \<noteq> Inl UsageError
   \<and> main ascii_unicode any_text None missing_args
       = Inr \<lparr>stdout = TextOut no_issues_msg, exit_code = 0\<rparr>"
proof -
  have "main ascii_unicode any_text None missing_args
      = Inr \<lparr>stdout = TextOut no_issues_msg, exit_code = 0\<rparr>"
    using main_no_findings [of ascii_unicode missing_args None any_text]
    by (simp add: get_files_no_root missing_args_def valid_severity_def any_text_def)
  then show ?thesis by simp
qed

text \<open>
  Claim C1, amended. When nothing is found at the root path (\<^verbatim>\<open>is_file\<close> and \<^verbatim>\<open>is_dir\<close>
  both answer no without raising) or it names something that is neither a regular file
  nor a directory, the flags are valid and the standard output can take the report, the
  selector yields no file and the run completes normally: it prints the empty report
  (the no-issues message, or the structured report with zero findings and \<open>passed\<close>
  true) and exits with code 0. What happens when examining the root raises is left
  out.
\<close>

theorem missing_root_empty_report:
  assumes "root = None \<or> root = Some Special"
    and "output' a = u ''text'' \<or> output' a = u ''json''"
    and "valid_severity (min_severity a)"
    and "output' a = u ''json'' \<or> can_print no_issues_msg"
  shows "get_files U (path a) root = Inr []
    \<and> main U can_print root a =
        Inr \<lparr>stdout = (if output' a = u ''json'' then JsonOut empty_json_report
                        else TextOut no_issues_msg),
             exit_code = 0\<rparr>"
  using assms by (simp add: get_files_no_root main_no_findings)

theorem missing_root_empty_report_witness:
  "get_files ascii_unicode [u ''/'', u ''dev'', u ''null''] (Some Special) = Inr []
   \<and> main ascii_unicode any_text (Some Special)
        \<lparr>path = [u ''/'', u ''dev'', u ''null''], output' = u ''json'', min_severity = u ''high''\<rparr>
       = Inr \<lparr>stdout = JsonOut empty_json_report, exit_code = 0\<rparr>"
  using missing_root_empty_report
    [of "Some Special"
        "\<lparr>path = [u ''/'', u ''dev'', u ''null''], output' = u ''json'', min_severity = u ''high''\<rparr>"
        any_text ascii_unicode]
  by (simp add: valid_severity_def)

section \<open>Properties of the matcher\<close>

lemma set_rmatch_Lit:
  "j \<in> set (rmatch U (Lit t) s i) \<longleftrightarrow> j = i + length t \<and> take (length t) (drop i s) = t"
  by auto

lemma set_rmatch_Seq:
  "j \<in> set (rmatch U (Seq a b) s i)
     \<longleftrightarrow> (\<exists>k \<in> set (rmatch U a s i). j \<in> set (rmatch U b s k))"
  by auto

lemma set_rmatch_alts:
  "j \<in> set (rmatch U (alts ts) s i)
     \<longleftrightarrow> (\<exists>t \<in> set ts. j = i + length t \<and> take (length t) (drop i s) = t)"
  by (induction ts rule: alts.induct) auto

lemma set_rmatch_WordB: "j \<in> set (rmatch U WordB s i) \<longleftrightarrow> j = i \<and> boundary U s i"
  by auto

lemma set_rmatch_NegAhead:
  "j \<in> set (rmatch U (NegAhead a) s i) \<longleftrightarrow> j = i \<and> rmatch U a s i = []"
  by auto

lemma le_length_takeWhile:
  "n \<le> length (takeWhile P xs) \<longleftrightarrow> n \<le> length xs \<and> (\<forall>k<n. P (xs ! k))"
proof (induction xs arbitrary: n)
  case Nil
  then show ?case by auto
next
  case (Cons x xs)
  show ?case
  proof (cases n)
    case 0
    then show ?thesis by simp
  next
    case (Suc m)
    have "(\<forall>k<Suc m. P ((x # xs) ! k)) \<longleftrightarrow> P x \<and> (\<forall>k<m. P (xs ! k))"
      by (metis less_Suc_eq_0_disj nth_Cons_0 nth_Cons_Suc)
    with Suc Cons.IH [of m] show ?thesis by auto
  qed
qed

lemma set_rmatch_Star:
  "j \<in> set (rmatch U (Star c) s i)
     \<longleftrightarrow> i \<le> j \<and> j - i \<le> length (drop i s) \<and> (\<forall>k<j - i. cls_ok U c (drop i s ! k))"
proof -
  have "j \<in> set (rmatch U (Star c) s i)
      \<longleftrightarrow> i \<le> j \<and> j - i \<le> length (takeWhile (cls_ok U c) (drop i s))"
    by (auto simp: image_iff less_Suc_eq_le intro: le_add_diff_inverse [symmetric])
  then show ?thesis by (simp only: le_length_takeWhile)
qed

lemma search_iff: "search U r s \<longleftrightarrow> (\<exists>i \<le> length s. rmatch U r s i \<noteq> [])"
  unfolding search_def list_ex_iff set_upt by (auto simp: less_Suc_eq_le simp del: upt_Suc)

lemma search_iff_set:
  "search U r s \<longleftrightarrow> (\<exists>i \<le> length s. \<exists>j. j \<in> set (rmatch U r s i))"
  by (simp add: search_iff) (metis equals0I empty_iff set_empty)

lemma seq_at:
  "k \<in> set (rmatch U r s i) \<Longrightarrow> j \<in> set (rmatch U r' s k) \<Longrightarrow>
   j \<in> set (rmatch U (Seq r r') s i)"
  by auto

text \<open>A match that starts inside the line ends inside the line, not before its start.\<close>

lemma rmatch_bounds:
  "j \<in> set (rmatch U r s i) \<Longrightarrow> i \<le> length s \<Longrightarrow> i \<le> j \<and> j \<le> length s"
proof (induction r arbitrary: i j)
  case (Lit t)
  then have j: "j = i + length t" and tk: "take (length t) (drop i s) = t"
    by (simp_all split: if_splits)
  have "length (take (length t) (drop i s)) = length t" by (simp only: tk)
  then have "length t \<le> length s - i" by simp
  with j Lit.prems(2) show ?case by simp
next
  case (Cls c)
  then show ?case by (auto split: if_splits)
next
  case (Seq a b)
  from Seq.prems(1) obtain k where k: "k \<in> set (rmatch U a s i)"
    and j: "j \<in> set (rmatch U b s k)"
    unfolding set_rmatch_Seq by blast
  from Seq.IH(1) [OF k Seq.prems(2)] have ik: "i \<le> k \<and> k \<le> length s" .
  from Seq.IH(2) [OF j] ik have "k \<le> j \<and> j \<le> length s" by blast
  with ik show ?case by simp
next
  case (Alt a b)
  then show ?case by auto
next
  case (Star c)
  from Star.prems(1) have "i \<le> j \<and> j - i \<le> length (drop i s)"
    unfolding set_rmatch_Star by blast
  then have "i \<le> j" and "j - i \<le> length s - i" by simp_all
  with Star.prems(2) show ?case by arith
next
  case (Opt a)
  then show ?case by auto
next
  case WordB
  then show ?case by (auto split: if_splits)
next
  case (NegAhead a)
  then show ?case by (auto split: if_splits)
qed

subsection \<open>Matches as texts\<close>

lemma search_spans_iff:
  "search U r s \<longleftrightarrow> (\<exists>a w rest. s = a @ w @ rest \<and> spans U r a w rest)"
proof
  assume "search U r s"
  then obtain i j where i: "i \<le> length s" and j: "j \<in> set (rmatch U r s i)"
    unfolding search_iff_set by blast
  from rmatch_bounds [OF j i] have b: "i \<le> j" "j \<le> length s" by simp_all
  let ?a = "take i s" and ?w = "take (j - i) (drop i s)" and ?rest = "drop (j - i) (drop i s)"
  have s: "s = ?a @ ?w @ ?rest" by (simp only: append_take_drop_id)
  have la: "length ?a = i" using i by simp
  have lw: "length ?w = j - i" using b by simp
  have "length ?a + length ?w \<in> set (rmatch U r (?a @ ?w @ ?rest) (length ?a))"
    unfolding la lw s [symmetric] using j b by simp
  then have "spans U r ?a ?w ?rest" by (simp only: spans_def)
  with s show "\<exists>a w rest. s = a @ w @ rest \<and> spans U r a w rest" by blast
next
  assume "\<exists>a w rest. s = a @ w @ rest \<and> spans U r a w rest"
  then obtain a w rest where s: "s = a @ w @ rest" and sp: "spans U r a w rest" by blast
  have "length a \<le> length s" by (simp add: s)
  with sp show "search U r s" unfolding spans_def search_iff_set s by blast
qed

lemma spans_Seq_iff:
  "spans U (Seq r r') a w rest
     \<longleftrightarrow> (\<exists>w1 w2. w = w1 @ w2 \<and> spans U r a w1 (w2 @ rest) \<and> spans U r' (a @ w1) w2 rest)"
proof
  assume "spans U (Seq r r') a w rest"
  then obtain k where k: "k \<in> set (rmatch U r (a @ w @ rest) (length a))"
    and j: "length a + length w \<in> set (rmatch U r' (a @ w @ rest) k)"
    unfolding spans_def set_rmatch_Seq by blast
  have "length a \<le> length (a @ w @ rest)" by simp
  from rmatch_bounds [OF k this] have ak: "length a \<le> k" "k \<le> length (a @ w @ rest)"
    by simp_all
  from rmatch_bounds [OF j ak(2)] have kj: "k \<le> length a + length w" by simp
  define n where "n = k - length a"
  have n: "n \<le> length w" "k = length a + n" using ak kj by (simp_all add: n_def)
  let ?w1 = "take n w" and ?w2 = "drop n w"
  have w: "w = ?w1 @ ?w2" by simp
  have l1: "length ?w1 = n" using n(1) by simp
  have e: "a @ ?w1 @ ?w2 @ rest = a @ w @ rest"
    by (metis append_assoc append_take_drop_id)
  have "length a + length ?w1 \<in> set (rmatch U r (a @ ?w1 @ ?w2 @ rest) (length a))"
    unfolding e l1 using k n by simp
  then have 1: "spans U r a ?w1 (?w2 @ rest)" by (simp only: spans_def)
  have e2: "(a @ ?w1) @ ?w2 @ rest = a @ w @ rest"
    by (metis append_assoc append_take_drop_id)
  have l2: "k + length ?w2 = length a + length w" "length (a @ ?w1) = k"
    using n by simp_all
  have "length (a @ ?w1) + length ?w2 \<in> set (rmatch U r' ((a @ ?w1) @ ?w2 @ rest) (length (a @ ?w1)))"
    using j by (simp only: e2 l2)
  then have 2: "spans U r' (a @ ?w1) ?w2 rest" by (simp only: spans_def)
  from w 1 2 show "\<exists>w1 w2. w = w1 @ w2 \<and> spans U r a w1 (w2 @ rest) \<and> spans U r' (a @ w1) w2 rest"
    by blast
next
  assume "\<exists>w1 w2. w = w1 @ w2 \<and> spans U r a w1 (w2 @ rest) \<and> spans U r' (a @ w1) w2 rest"
  then obtain w1 w2 where w: "w = w1 @ w2" and 1: "spans U r a w1 (w2 @ rest)"
    and 2: "spans U r' (a @ w1) w2 rest" by blast
  from 1 have k: "length a + length w1 \<in> set (rmatch U r (a @ w @ rest) (length a))"
    by (simp add: spans_def w del: rmatch.simps)
  from 2 have "length a + length w \<in> set (rmatch U r' (a @ w @ rest) (length a + length w1))"
    by (simp add: spans_def w add.assoc del: rmatch.simps)
  with k show "spans U (Seq r r') a w rest"
    unfolding spans_def by (rule seq_at)
qed

lemma spans_Lit_iff: "spans U (Lit t) a w rest \<longleftrightarrow> w = t"
proof
  assume "spans U (Lit t) a w rest"
  then have l: "length a + length w = length a + length t"
    and tk: "take (length t) (drop (length a) (a @ w @ rest)) = t"
    unfolding spans_def set_rmatch_Lit by blast+
  have "drop (length a) (a @ w @ rest) = w @ rest" by simp
  with tk l have "take (length w) (w @ rest) = t" by simp
  then show "w = t" by simp
next
  assume "w = t"
  then show "spans U (Lit t) a w rest" by (simp add: spans_def)
qed

lemma spans_alts_iff: "spans U (alts ts) a w rest \<longleftrightarrow> w \<in> set ts"
proof
  assume "spans U (alts ts) a w rest"
  then obtain t where t: "t \<in> set ts" and l: "length a + length w = length a + length t"
    and tk: "take (length t) (drop (length a) (a @ w @ rest)) = t"
    unfolding spans_def set_rmatch_alts by blast
  have "drop (length a) (a @ w @ rest) = w @ rest" by simp
  with tk l have "take (length w) (w @ rest) = t" by simp
  then have "w = t" by simp
  with t show "w \<in> set ts" by simp
next
  assume "w \<in> set ts"
  then show "spans U (alts ts) a w rest"
    unfolding spans_def set_rmatch_alts by auto
qed

lemma spans_Star_iff: "spans U (Star c) a w rest \<longleftrightarrow> list_all (cls_ok U c) w"
proof -
  have "(\<forall>k<length w. cls_ok U c ((w @ rest) ! k)) \<longleftrightarrow> list_all (cls_ok U c) w"
    by (simp add: list_all_length nth_append)
  then show ?thesis
    unfolding spans_def set_rmatch_Star by simp
qed

lemma spans_Cls_iff: "spans U (Cls c) a w rest \<longleftrightarrow> (\<exists>x. w = [x] \<and> cls_ok U c x)"
proof
  assume sp: "spans U (Cls c) a w rest"
  then have l: "length w = 1" and ok: "cls_ok U c ((a @ w @ rest) ! length a)"
    by (simp_all add: spans_def split: if_splits)
  from l obtain x where w: "w = [x]" by (cases w) auto
  with ok show "\<exists>x. w = [x] \<and> cls_ok U c x" by simp
next
  assume "\<exists>x. w = [x] \<and> cls_ok U c x"
  then show "spans U (Cls c) a w rest" by (auto simp: spans_def)
qed

lemma spans_WordB_iff:
  "spans U WordB a w rest \<longleftrightarrow> w = [] \<and> boundary U (a @ rest) (length a)"
  by (auto simp: spans_def split: if_splits)

lemma spans_NegAhead_iff:
  "spans U (NegAhead r) a w rest \<longleftrightarrow> w = [] \<and> rmatch U r (a @ rest) (length a) = []"
  by (auto simp: spans_def split: if_splits)

subsection \<open>Word boundaries\<close>

lemma word_at_append_last:
  "pre \<noteq> [] \<Longrightarrow> word_at U (pre @ post) (length pre - 1) = uword U (last pre)"
proof -
  assume ne: "pre \<noteq> []"
  then have "length pre - 1 < length pre" by simp
  then have "length pre - 1 < length (pre @ post)" by simp
  moreover have "(pre @ post) ! (length pre - 1) = last pre"
    using ne by (simp add: nth_append last_conv_nth)
  ultimately show ?thesis by (simp only: word_at_def simp_thms)
qed

lemma word_at_append_hd:
  "word_at U (pre @ post) (length pre) = (post \<noteq> [] \<and> uword U (hd post))"
  by (cases post) (simp_all add: word_at_def nth_append)

lemma boundary_append:
  "boundary U (pre @ post) (length pre)
     \<longleftrightarrow> ((pre \<noteq> [] \<and> uword U (last pre)) \<noteq> (post \<noteq> [] \<and> uword U (hd post)))"
proof (cases "pre = []")
  case True
  then show ?thesis using word_at_append_hd [of U "[]" post] by (simp add: boundary_def)
next
  case False
  then have "0 < length pre" by simp
  then show ?thesis
    unfolding boundary_def word_at_append_hd word_at_append_last [OF False]
    using False by simp
qed

lemma boundary_before_token:
  assumes "t \<noteq> []" and "uword U (hd t)"
  shows "boundary U (pre @ t @ post) (length pre) \<longleftrightarrow> pre = [] \<or> \<not> uword U (last pre)"
  using assms boundary_append [of U pre "t @ post"] by auto

lemma boundary_after_token:
  assumes "t \<noteq> []" and "uword U (last t)"
  shows "boundary U ((pre @ t) @ post) (length (pre @ t)) \<longleftrightarrow> post = [] \<or> \<not> uword U (hd post)"
  using assms boundary_append [of U "pre @ t" post] by auto


text \<open>A field pattern \<^verbatim>\<open>\b(t1|...|tn)\b\<close> whose tokens begin and end with a word character
  matches a line iff some token occurs in it with no word character next to it.\<close>

lemma spans_word_alt_boundaries:
  "spans U (word_alt ts) a w rest
     \<longleftrightarrow> w \<in> u ` set ts \<and> boundary U (a @ w @ rest) (length a)
         \<and> boundary U ((a @ w) @ rest) (length (a @ w))"
proof
  assume "spans U (word_alt ts) a w rest"
  then obtain w1 w2 where w: "w = w1 @ w2" and b1: "spans U WordB a w1 (w2 @ rest)"
    and r: "spans U (Seq (alts (map u ts)) WordB) (a @ w1) w2 rest"
    unfolding word_alt_def spans_Seq_iff [of U WordB] by blast
  from r obtain w3 w4 where w2: "w2 = w3 @ w4" and t: "spans U (alts (map u ts)) (a @ w1) w3 (w4 @ rest)"
    and b2: "spans U WordB ((a @ w1) @ w3) w4 rest"
    unfolding spans_Seq_iff by blast
  from b1 have w1: "w1 = []" and bb1: "boundary U (a @ w2 @ rest) (length a)"
    unfolding spans_WordB_iff by simp_all
  from b2 have w4: "w4 = []" and bb2: "boundary U (((a @ w1) @ w3) @ rest) (length ((a @ w1) @ w3))"
    unfolding spans_WordB_iff by simp_all
  from t have "w3 \<in> u ` set ts" unfolding spans_alts_iff by simp
  moreover have "w = w3" by (simp add: w w1 w2 w4)
  ultimately show "w \<in> u ` set ts \<and> boundary U (a @ w @ rest) (length a)
         \<and> boundary U ((a @ w) @ rest) (length (a @ w))"
    using bb1 bb2 by (simp add: w1 w2 w4)
next
  assume a: "w \<in> u ` set ts \<and> boundary U (a @ w @ rest) (length a)
         \<and> boundary U ((a @ w) @ rest) (length (a @ w))"
  then have 1: "spans U WordB a [] (w @ rest)" by (simp add: spans_WordB_iff)
  from a have 2: "spans U (alts (map u ts)) (a @ []) w ([] @ rest)"
    by (simp add: spans_alts_iff)
  from a have 3: "spans U WordB ((a @ []) @ w) [] rest" by (simp add: spans_WordB_iff)
  from 2 3 have "spans U (Seq (alts (map u ts)) WordB) (a @ []) (w @ []) rest"
    unfolding spans_Seq_iff [of U "alts (map u ts)"] by blast
  then have "spans U (Seq (alts (map u ts)) WordB) (a @ []) w rest" by simp
  with 1 have "spans U (Seq WordB (Seq (alts (map u ts)) WordB)) a ([] @ w) rest"
    unfolding spans_Seq_iff [of U WordB] by blast
  then show "spans U (word_alt ts) a w rest" by (simp add: word_alt_def)
qed

lemma spans_word_alt:
  assumes "\<forall>t \<in> set ts. t \<noteq> [] \<and> uword U (hd (u t)) \<and> uword U (last (u t))"
  shows "spans U (word_alt ts) a w rest
     \<longleftrightarrow> w \<in> u ` set ts \<and> (a = [] \<or> \<not> uword U (last a)) \<and> (rest = [] \<or> \<not> uword U (hd rest))"
proof (cases "w \<in> u ` set ts")
  case False
  then show ?thesis by (simp add: spans_word_alt_boundaries)
next
  case True
  then obtain t where "t \<in> set ts" and "w = u t" by blast
  with assms have tw: "w \<noteq> []" "uword U (hd w)" "uword U (last w)" by auto
  show ?thesis
    unfolding spans_word_alt_boundaries
      boundary_before_token [OF tw(1,2)] boundary_after_token [OF tw(1,3)]
    using True by simp
qed

lemma search_word_alt:
  assumes "\<forall>t \<in> set ts. t \<noteq> [] \<and> uword U (hd (u t)) \<and> uword U (last (u t))"
  shows "search U (word_alt ts) s
     \<longleftrightarrow> (\<exists>t \<in> set ts. \<exists>pre post. s = pre @ u t @ post
            \<and> (pre = [] \<or> \<not> uword U (last pre)) \<and> (post = [] \<or> \<not> uword U (hd post)))"
  unfolding search_spans_iff spans_word_alt [OF assms] by blast

section \<open>Character tables\<close>

lemma py_uspace: "py_unicode U \<Longrightarrow> c < 128 \<Longrightarrow> uspace U c = ascii_space c"
  by (simp add: py_unicode_def)

lemma py_uword: "py_unicode U \<Longrightarrow> c < 128 \<Longrightarrow> uword U c = ascii_word c"
  by (simp add: py_unicode_def)

lemma py_ulower_ascii: "py_unicode U \<Longrightarrow> is_ascii s \<Longrightarrow> ulower U s = map ascii_lower s"
  by (simp add: py_unicode_def is_ascii_def list_all_iff)

lemma py_ulower_blank: "py_unicode U \<Longrightarrow> list_all (uspace U) s \<Longrightarrow> ulower U s = s"
  by (simp add: py_unicode_def list_all_iff)

lemma ascii_lower_blank: "ascii_space c \<Longrightarrow> ascii_lower c = c"
  by (auto simp: ascii_space_def ascii_lower_def)

lemma py_unicode_ascii: "py_unicode ascii_unicode"
  by (auto simp: py_unicode_def ascii_unicode_def ascii_lower_blank intro: map_idI)

lemma is_ascii_lower: "is_ascii s \<Longrightarrow> is_ascii (map ascii_lower s)"
  by (auto simp: is_ascii_def list_all_iff ascii_lower_def)

subsection \<open>ASCII lines do not depend on the rest of the tables\<close>

lemma cls_ok_ascii:
  "py_unicode U \<Longrightarrow> c < 128 \<Longrightarrow> cls_ok U k c = cls_ok ascii_unicode k c"
  by (cases k) (simp_all add: py_uspace py_uword ascii_unicode_def)

lemma word_at_ascii:
  assumes "py_unicode U" and "is_ascii s"
  shows "word_at U s i = word_at ascii_unicode s i"
proof (cases "i < length s")
  case True
  then have "s ! i < 128" using assms(2) by (simp add: is_ascii_def list_all_length)
  then show ?thesis using assms(1) by (simp add: word_at_def py_uword ascii_unicode_def)
next
  case False
  then show ?thesis by (simp add: word_at_def)
qed

lemma boundary_ascii:
  "py_unicode U \<Longrightarrow> is_ascii s \<Longrightarrow> boundary U s i = boundary ascii_unicode s i"
  by (simp add: boundary_def word_at_ascii)

lemma rmatch_ascii:
  assumes "py_unicode U" and "is_ascii s"
  shows "rmatch U r s i = rmatch ascii_unicode r s i"
proof (induction r arbitrary: i)
  case (Cls c)
  show ?case
  proof (cases "i < length s")
    case True
    then have "s ! i < 128" using assms(2) by (simp add: is_ascii_def list_all_length)
    then show ?thesis using cls_ok_ascii [OF assms(1)] by simp
  next
    case False
    then show ?thesis by simp
  qed
next
  case (Star c)
  have "takeWhile (cls_ok U c) (drop i s) = takeWhile (cls_ok ascii_unicode c) (drop i s)"
  proof (rule takeWhile_cong [OF refl])
    fix x assume "x \<in> set (drop i s)"
    then have "x \<in> set s" by (rule in_set_dropD)
    then have "x < 128" using assms(2) by (simp add: is_ascii_def list_all_iff)
    then show "cls_ok U c x = cls_ok ascii_unicode c x" by (rule cls_ok_ascii [OF assms(1)])
  qed
  then show ?case by simp
next
  case WordB
  show ?case by (simp add: boundary_ascii [OF assms])
next
  case (Seq a b)
  have "(\<lambda>j. rmatch U b s j) = (\<lambda>j. rmatch ascii_unicode b s j)"
    using Seq.IH(2) by (intro ext)
  then show ?case by (simp add: Seq.IH(1))
qed simp_all

lemma search_ascii:
  "py_unicode U \<Longrightarrow> is_ascii s \<Longrightarrow> search U r s = search ascii_unicode r s"
  by (simp add: search_def rmatch_ascii)

lemma dropWhile_ascii:
  assumes "py_unicode U" and "is_ascii s"
  shows "dropWhile (uspace U) s = dropWhile (uspace ascii_unicode) s"
proof (rule dropWhile_cong [OF refl])
  fix x assume "x \<in> set s"
  then have "x < 128" using assms(2) by (simp add: is_ascii_def list_all_iff)
  then show "uspace U x = uspace ascii_unicode x"
    using assms(1) by (simp add: py_uspace ascii_unicode_def)
qed

lemma strip_ascii:
  assumes "py_unicode U" and "is_ascii s"
  shows "strip U s = strip ascii_unicode s"
proof -
  have 1: "dropWhile (uspace U) s = dropWhile (uspace ascii_unicode) s"
    using assms by (rule dropWhile_ascii)
  have "is_ascii (rev (dropWhile (uspace ascii_unicode) s))"
    using assms(2) by (auto simp: is_ascii_def list_all_iff dest: set_dropWhileD)
  then have "dropWhile (uspace U) (rev (dropWhile (uspace ascii_unicode) s))
      = dropWhile (uspace ascii_unicode) (rev (dropWhile (uspace ascii_unicode) s))"
    using assms(1) by (rule dropWhile_ascii [rotated])
  with 1 show ?thesis by (simp add: strip_def)
qed

lemma scan_line_ascii:
  assumes "py_unicode U" and "is_ascii ln"
  shows "scan_line U fp n ln = scan_line ascii_unicode fp n ln"
proof -
  have st: "strip U ln = strip ascii_unicode ln" using assms by (rule strip_ascii)
  have lo: "ulower U ln = ulower ascii_unicode ln"
    using assms by (simp add: py_ulower_ascii ascii_unicode_def)
  have "is_ascii (ulower ascii_unicode ln)"
    using assms(2) by (simp add: ascii_unicode_def is_ascii_lower)
  then have se: "\<And>r. search U r (ulower ascii_unicode ln) = search ascii_unicode r (ulower ascii_unicode ln)"
    using assms(1) by (simp add: search_ascii)
  show ?thesis
    by (simp add: scan_line_def is_comment_def field_finding_def log_finding_def
        unencrypted_finding_def st lo se Let_def)
qed

section \<open>Properties of the line scanner\<close>

lemma in_scan_line:
  "f \<in> set (scan_line U fp n ln) \<longleftrightarrow>
     \<not> is_comment U ln
     \<and> ((\<exists>pat ty sev. (pat, ty, sev) \<in> set PII_FIELD_PATTERNS \<and> search U pat (ulower U ln)
            \<and> f = field_finding U fp n ln ty sev)
        \<or> (\<exists>pat. pat \<in> set LOG_PATTERNS \<and> search U pat (ulower U ln))
            \<and> f = log_finding U fp n ln
        \<or> (\<exists>pat. pat \<in> set UNENCRYPTED_PATTERNS \<and> search U pat (ulower U ln))
            \<and> f = unencrypted_finding U fp n ln)"
proof (cases "is_comment U ln")
  case True
  then show ?thesis by (simp add: scan_line_def)
next
  case False
  have "f \<in> set (scan_line U fp n ln) \<longleftrightarrow>
      f \<in> set (map (\<lambda>(pattern, pii_type, sev). field_finding U fp n ln pii_type sev)
          (filter (\<lambda>(pattern, pii_type, sev). search U pattern (ulower U ln)) PII_FIELD_PATTERNS))
      \<or> f \<in> set (map (\<lambda>pattern. log_finding U fp n ln)
            (filter (\<lambda>pattern. search U pattern (ulower U ln)) LOG_PATTERNS))
      \<or> f \<in> set (map (\<lambda>pattern. unencrypted_finding U fp n ln)
            (filter (\<lambda>pattern. search U pattern (ulower U ln)) UNENCRYPTED_PATTERNS))"
    using False by (simp only: scan_line_def Let_def if_False set_append Un_iff)
  moreover have
    "f \<in> set (map (\<lambda>(pattern, pii_type, sev). field_finding U fp n ln pii_type sev)
          (filter (\<lambda>(pattern, pii_type, sev). search U pattern (ulower U ln)) PII_FIELD_PATTERNS))
      \<longleftrightarrow> (\<exists>pat ty sev. (pat, ty, sev) \<in> set PII_FIELD_PATTERNS \<and> search U pat (ulower U ln)
            \<and> f = field_finding U fp n ln ty sev)"
    by (auto simp: image_iff)
  moreover have "f \<in> set (map (\<lambda>pattern. log_finding U fp n ln)
            (filter (\<lambda>pattern. search U pattern (ulower U ln)) LOG_PATTERNS))
      \<longleftrightarrow> (\<exists>pat. pat \<in> set LOG_PATTERNS \<and> search U pat (ulower U ln))
          \<and> f = log_finding U fp n ln"
    by auto
  moreover have "f \<in> set (map (\<lambda>pattern. unencrypted_finding U fp n ln)
            (filter (\<lambda>pattern. search U pattern (ulower U ln)) UNENCRYPTED_PATTERNS))
      \<longleftrightarrow> (\<exists>pat. pat \<in> set UNENCRYPTED_PATTERNS \<and> search U pat (ulower U ln))
            \<and> f = unencrypted_finding U fp n ln"
    by auto
  ultimately show ?thesis using False by simp
qed

lemma in_scan_lines:
  "f \<in> set (scan_lines U fp n lns)
     \<longleftrightarrow> (\<exists>i<length lns. f \<in> set (scan_line U fp (n + int i) (lns ! i)))"
proof (induction lns arbitrary: n)
  case Nil
  then show ?case by simp
next
  case (Cons l lns)
  have "(\<exists>i<length (l # lns). f \<in> set (scan_line U fp (n + int i) ((l # lns) ! i)))
      \<longleftrightarrow> f \<in> set (scan_line U fp n l)
          \<or> (\<exists>i<length lns. f \<in> set (scan_line U fp (n + 1 + int i) (lns ! i)))"
    by (auto simp: less_Suc_eq_0_disj add.assoc)
  then show ?case by (simp add: Cons.IH)
qed

section \<open>Every pattern needs a letter\<close>

lemma search_Seq1: "search U (Seq r r') s \<Longrightarrow> search U r s"
proof -
  assume "search U (Seq r r') s"
  then obtain a w1 w2 rest where "s = a @ (w1 @ w2) @ rest" and "spans U r a w1 (w2 @ rest)"
    unfolding search_spans_iff spans_Seq_iff by blast
  then have "s = a @ w1 @ (w2 @ rest) \<and> spans U r a w1 (w2 @ rest)" by simp
  then show "search U r s" unfolding search_spans_iff by blast
qed

lemma search_Seq2: "search U (Seq r r') s \<Longrightarrow> search U r' s"
proof -
  assume "search U (Seq r r') s"
  then obtain a w1 w2 rest where "s = a @ (w1 @ w2) @ rest" and "spans U r' (a @ w1) w2 rest"
    unfolding search_spans_iff spans_Seq_iff by blast
  then have "s = (a @ w1) @ w2 @ rest \<and> spans U r' (a @ w1) w2 rest" by simp
  then show "search U r' s" unfolding search_spans_iff by blast
qed

lemma search_alts: "search U (alts ts) s \<longleftrightarrow> (\<exists>t \<in> set ts. \<exists>pre post. s = pre @ t @ post)"
  unfolding search_spans_iff spans_alts_iff by blast

lemma alts_needs_letter:
  assumes "search U (alts (map u ts)) s"
    and "\<forall>t \<in> set ts. t \<noteq> [] \<and> lower_letter (of_char (hd t))"
  shows "\<exists>c \<in> set s. lower_letter c"
proof -
  from assms(1) obtain t pre post where t: "t \<in> set ts" and s: "s = pre @ u t @ post"
    unfolding search_alts by auto
  with assms(2) have "t \<noteq> []" and "lower_letter (of_char (hd t))" by auto
  moreover from \<open>t \<noteq> []\<close> have "of_char (hd t) \<in> set (u t)"
    by (cases t) (simp_all add: u_def)
  ultimately show ?thesis using s by auto
qed

lemma word_alt_needs_letter:
  assumes "search U (word_alt ts) s"
    and "\<forall>t \<in> set ts. t \<noteq> [] \<and> lower_letter (of_char (hd t))"
  shows "\<exists>c \<in> set s. lower_letter c"
proof -
  from assms(1) have "search U (alts (map u ts)) s"
    unfolding word_alt_def by (blast dest: search_Seq1 search_Seq2)
  then show ?thesis using assms(2) by (rule alts_needs_letter)
qed

lemma field_pattern_needs_letter:
  assumes "(pat, ty, sev) \<in> set PII_FIELD_PATTERNS" and "search U pat s"
  shows "\<exists>c \<in> set s. lower_letter c"
proof -
  from assms(1) obtain ts where "pat = word_alt ts"
    and "\<forall>t \<in> set ts. t \<noteq> [] \<and> lower_letter (of_char (hd t))"
    unfolding PII_FIELD_PATTERNS_def by (auto simp: lower_letter_def)
  with assms(2) show ?thesis using word_alt_needs_letter by blast
qed

lemma log_pattern_needs_letter:
  assumes "pat \<in> set LOG_PATTERNS" and "search U pat s"
  shows "\<exists>c \<in> set s. lower_letter c"
proof -
  from assms(1) obtain fn where "pat = log_pattern fn"
    unfolding LOG_PATTERNS_def by auto
  with assms(2) have "search U (alts (map u log_tokens)) s"
    unfolding log_pattern_def seqs.simps by (blast dest: search_Seq2)
  moreover have "\<forall>t \<in> set log_tokens. t \<noteq> [] \<and> lower_letter (of_char (hd t))"
    by (simp add: log_tokens_def lower_letter_def)
  ultimately show ?thesis by (rule alts_needs_letter)
qed

lemma unencrypted_pattern_needs_letter:
  assumes "pat \<in> set UNENCRYPTED_PATTERNS" and "search U pat s"
  shows "\<exists>c \<in> set s. lower_letter c"
proof -
  from assms(1) consider
      (assign) "pat = seqs [Cls WordC, Star WordC, Star SpaceC, Lit (u ''=''), Star SpaceC,
        alts (map u [''request'', ''req'']), Lit (u ''.''),
        alts (map u [''body'', ''form'', ''params'', ''query'']), Star SpaceC, Lit (u ''[''),
        Star SpaceC, Opt (Cls (AnyOf [39, 34])),
        alts (map u [''ssn'', ''password'', ''credit_card'', ''card_number''])]"
    | (store) "pat = Seq store_call no_encrypt_ahead"
    unfolding UNENCRYPTED_PATTERNS_def by auto
  then show ?thesis
  proof cases
    case assign
    with assms(2) have "search U (alts (map u [''request'', ''req''])) s"
      unfolding seqs.simps by (blast dest: search_Seq1 search_Seq2)
    then show ?thesis by (rule alts_needs_letter) (simp add: lower_letter_def)
  next
    case store
    with assms(2) have "search U (alts (map u [''db'', ''database'', ''store'', ''save''])) s"
      unfolding store_call_def seqs.simps by (blast dest: search_Seq1)
    then show ?thesis by (rule alts_needs_letter) (simp add: lower_letter_def)
  qed
qed

lemma letter_not_blank: "py_unicode U \<Longrightarrow> lower_letter c \<Longrightarrow> \<not> uspace U c"
  by (auto simp: lower_letter_def py_uspace ascii_space_def)

section \<open>Comment lines and blank lines\<close>

lemma scan_line_blank:
  assumes "py_unicode U" and "list_all (uspace U) ln"
  shows "scan_line U fp n ln = []"
proof -
  have lo: "ulower U ln = ln" using assms by (rule py_ulower_blank)
  have no: "\<not> (\<exists>c \<in> set ln. lower_letter c)"
    using assms letter_not_blank by (auto simp: list_all_iff)
  have "\<And>f. f \<notin> set (scan_line U fp n ln)"
    unfolding in_scan_line lo
    using no field_pattern_needs_letter log_pattern_needs_letter
      unencrypted_pattern_needs_letter by blast
  then show ?thesis by (meson last_in_set)
qed

lemma is_comment_iff:
  "is_comment U ln \<longleftrightarrow>
     startswith (strip U ln) (u ''//'') \<or> startswith (strip U ln) (u ''#'')
     \<or> startswith (strip U ln) (u ''*'')"
  by (simp add: is_comment_def Let_def)

lemma scan_lines_empty:
  "(\<And>ln m. ln \<in> set lns \<Longrightarrow> scan_line U fp m ln = []) \<Longrightarrow> scan_lines U fp n lns = []"
  by (induction lns arbitrary: n) simp_all

text \<open>
  Claim C7. A line whose trimmed form starts with \<^verbatim>\<open>//\<close>, \<^verbatim>\<open>#\<close> or \<^verbatim>\<open>*\<close> produces no
  finding, whatever it contains. A file all of whose lines are such lines produces no
  finding at all, and so does a file of such lines and blank lines (as a file that ends
  with a line break is).
\<close>

theorem comment_lines_yield_no_findings:
  "(startswith (strip U ln) (u ''//'') \<or> startswith (strip U ln) (u ''#'')
      \<or> startswith (strip U ln) (u ''*'')
      \<longrightarrow> scan_line U fp n ln = [])
   \<and> ((\<forall>l \<in> set (split_nl text).
          startswith (strip U l) (u ''//'') \<or> startswith (strip U l) (u ''#'')
          \<or> startswith (strip U l) (u ''*''))
      \<longrightarrow> scan_file U p (Some text) = [])
   \<and> (py_unicode U
       \<and> (\<forall>l \<in> set (split_nl text).
          startswith (strip U l) (u ''//'') \<or> startswith (strip U l) (u ''#'')
          \<or> startswith (strip U l) (u ''*'') \<or> list_all (uspace U) l)
      \<longrightarrow> scan_file U p (Some text) = [])"
proof (intro conjI impI)
  assume "startswith (strip U ln) (u ''//'') \<or> startswith (strip U ln) (u ''#'')
      \<or> startswith (strip U ln) (u ''*'')"
  then have "is_comment U ln" by (simp add: is_comment_iff)
  then show "scan_line U fp n ln = []" by (simp add: scan_line_def)
next
  assume "\<forall>l \<in> set (split_nl text).
          startswith (strip U l) (u ''//'') \<or> startswith (strip U l) (u ''#'')
          \<or> startswith (strip U l) (u ''*'')"
  then have "\<And>l m. l \<in> set (split_nl text) \<Longrightarrow> scan_line U (path_str p) m l = []"
    by (simp add: scan_line_def is_comment_iff)
  then show "scan_file U p (Some text) = []"
    by (simp add: scan_file_def scan_lines_empty)
next
  assume a: "py_unicode U
       \<and> (\<forall>l \<in> set (split_nl text).
          startswith (strip U l) (u ''//'') \<or> startswith (strip U l) (u ''#'')
          \<or> startswith (strip U l) (u ''*'') \<or> list_all (uspace U) l)"
  have "\<And>l m. l \<in> set (split_nl text) \<Longrightarrow> scan_line U (path_str p) m l = []"
  proof -
    fix l m assume "l \<in> set (split_nl text)"
    with a have "is_comment U l \<or> list_all (uspace U) l" by (auto simp: is_comment_iff)
    then show "scan_line U (path_str p) m l = []"
      using a scan_line_blank by (auto simp: scan_line_def)
  qed
  then show "scan_file U p (Some text) = []"
    by (simp add: scan_file_def scan_lines_empty)
qed

theorem comment_lines_yield_no_findings_witness:
  "split_nl comment_file
     = [u ''# password = ssn'', [], u ''  // db.save(ssn)'', u '' * print(email)'', []]
   \<and> startswith (strip ascii_unicode (u ''  // db.save(ssn)'')) (u ''//'')
   \<and> scan_line ascii_unicode (u ''a.py'') 3 (u ''  // db.save(ssn)'') = []
   \<and> scan_file ascii_unicode [u ''src'', u ''a.py''] (Some comment_file) = []"
proof -
  have s: "split_nl comment_file
     = [u ''# password = ssn'', [], u ''  // db.save(ssn)'', u '' * print(email)'', []]"
    by code_simp
  have c1: "startswith (strip ascii_unicode (u ''# password = ssn'')) (u ''#'')" by code_simp
  have c2: "startswith (strip ascii_unicode (u ''  // db.save(ssn)'')) (u ''//'')" by code_simp
  have c3: "startswith (strip ascii_unicode (u '' * print(email)'')) (u ''*'')" by code_simp
  from comment_lines_yield_no_findings
    [of ascii_unicode "u ''  // db.save(ssn)''" "u ''a.py''" 3 comment_file "[u ''src'', u ''a.py'']"]
  show ?thesis using s c1 c2 c3 py_unicode_ascii by simp
qed

section \<open>Field rules and word boundaries\<close>

lemma credential_rule:
  "(pat, ''Credential'', sev) \<in> set PII_FIELD_PATTERNS
     \<longleftrightarrow> pat = word_alt credential_tokens \<and> sev = CRITICAL"
  by (auto simp: PII_FIELD_PATTERNS_def credential_tokens_def)

lemma field_finding_credential:
  "is_credential_finding (field_finding U fp n ln ty sev) \<longleftrightarrow> ty = ''Credential''"
  by (simp add: is_credential_finding_def field_finding_def)

lemma other_findings_not_credential:
  "\<not> is_credential_finding (log_finding U fp n ln)"
  "\<not> is_credential_finding (unencrypted_finding U fp n ln)"
  by (simp_all add: is_credential_finding_def log_finding_def unencrypted_finding_def)

lemma credential_finding_iff_search:
  "(\<exists>f \<in> set (scan_line U fp n ln). is_credential_finding f)
     \<longleftrightarrow> \<not> is_comment U ln \<and> search U (word_alt credential_tokens) (ulower U ln)"
proof
  assume "\<exists>f \<in> set (scan_line U fp n ln). is_credential_finding f"
  then obtain f where f: "f \<in> set (scan_line U fp n ln)" and c: "is_credential_finding f"
    by blast
  from f c obtain pat ty sev where "\<not> is_comment U ln"
    and "(pat, ty, sev) \<in> set PII_FIELD_PATTERNS" and "search U pat (ulower U ln)"
    and "f = field_finding U fp n ln ty sev"
    unfolding in_scan_line using other_findings_not_credential by blast
  with c show "\<not> is_comment U ln \<and> search U (word_alt credential_tokens) (ulower U ln)"
    by (simp add: field_finding_credential credential_rule)
next
  assume a: "\<not> is_comment U ln \<and> search U (word_alt credential_tokens) (ulower U ln)"
  have "(word_alt credential_tokens, ''Credential'', CRITICAL) \<in> set PII_FIELD_PATTERNS"
    by (simp add: credential_rule)
  with a have "field_finding U fp n ln ''Credential'' CRITICAL \<in> set (scan_line U fp n ln)"
    unfolding in_scan_line by blast
  then show "\<exists>f \<in> set (scan_line U fp n ln). is_credential_finding f"
    using field_finding_credential by blast
qed

lemma credential_finding_critical:
  assumes "f \<in> set (scan_line U fp n ln)" and "is_credential_finding f"
  shows "severity f = u ''critical''"
proof -
  from assms obtain pat ty sev where "(pat, ty, sev) \<in> set PII_FIELD_PATTERNS"
    and f: "f = field_finding U fp n ln ty sev"
    unfolding in_scan_line using other_findings_not_credential by blast
  with assms(2) have "sev = CRITICAL"
    by (simp add: field_finding_credential credential_rule)
  with f show ?thesis by (simp add: field_finding_def)
qed

lemma credential_tokens_word:
  "py_unicode U \<Longrightarrow>
   \<forall>t \<in> set credential_tokens. t \<noteq> [] \<and> uword U (hd (u t)) \<and> uword U (last (u t))"
  by (simp add: credential_tokens_def u_def py_uword ascii_word_def)

lemma is_ascii_u: "list_all (\<lambda>c. of_char c < (128::nat)) s \<Longrightarrow> is_ascii (u s)"
  by (simp add: is_ascii_def u_def list_all_iff)

lemma credential_example:
  assumes "py_unicode U" and "is_ascii ln"
  shows "(\<exists>f \<in> set (scan_line U fp n ln). is_credential_finding f)
     \<longleftrightarrow> \<not> is_comment ascii_unicode ln
         \<and> search ascii_unicode (word_alt credential_tokens) (ulower ascii_unicode ln)"
  unfolding scan_line_ascii [OF assms] by (rule credential_finding_iff_search)

text \<open>
  Claim C8. The Credential field rule fires on a line that is no comment iff the
  lower-cased line contains one of its tokens with no word character directly before or
  after it, and its finding is critical. So \<^verbatim>\<open>passwordReset\<close> yields no Credential
  finding, while \<^verbatim>\<open>req.body.password\<close> and \<^verbatim>\<open>user-password\<close> yield one.
\<close>

theorem credential_rule_word_boundaries:
  assumes "py_unicode U"
  shows "((\<exists>f \<in> set (scan_line U fp n ln). is_credential_finding f)
      \<longleftrightarrow> \<not> is_comment U ln
          \<and> (\<exists>t \<in> set credential_tokens. \<exists>pre post. ulower U ln = pre @ u t @ post
                \<and> (pre = [] \<or> \<not> uword U (last pre)) \<and> (post = [] \<or> \<not> uword U (hd post))))
   \<and> (\<forall>f \<in> set (scan_line U fp n ln). is_credential_finding f \<longrightarrow> severity f = u ''critical'')
   \<and> \<not> (\<exists>f \<in> set (scan_line U fp n (u ''x = passwordReset'')). is_credential_finding f)
   \<and> (\<exists>f \<in> set (scan_line U fp n (u ''req.body.password'')).
         is_credential_finding f \<and> severity f = u ''critical'')
   \<and> (\<exists>f \<in> set (scan_line U fp n (u ''user-password'')).
         is_credential_finding f \<and> severity f = u ''critical'')"
proof (intro conjI)
  show "(\<exists>f \<in> set (scan_line U fp n ln). is_credential_finding f)
      \<longleftrightarrow> \<not> is_comment U ln
          \<and> (\<exists>t \<in> set credential_tokens. \<exists>pre post. ulower U ln = pre @ u t @ post
                \<and> (pre = [] \<or> \<not> uword U (last pre)) \<and> (post = [] \<or> \<not> uword U (hd post)))"
    by (simp only: credential_finding_iff_search
        search_word_alt [OF credential_tokens_word [OF assms]])
  show "\<forall>f \<in> set (scan_line U fp n ln). is_credential_finding f \<longrightarrow> severity f = u ''critical''"
    using credential_finding_critical by blast
  have a1: "is_ascii (u ''x = passwordReset'')" by (rule is_ascii_u) simp
  have "\<not> search ascii_unicode (word_alt credential_tokens)
      (ulower ascii_unicode (u ''x = passwordReset''))" by code_simp
  then show "\<not> (\<exists>f \<in> set (scan_line U fp n (u ''x = passwordReset'')). is_credential_finding f)"
    by (simp only: credential_example [OF assms a1] simp_thms)
  have a2: "is_ascii (u ''req.body.password'')" by (rule is_ascii_u) simp
  have "\<not> is_comment ascii_unicode (u ''req.body.password'')
      \<and> search ascii_unicode (word_alt credential_tokens)
          (ulower ascii_unicode (u ''req.body.password''))" by code_simp
  then have "\<exists>f \<in> set (scan_line U fp n (u ''req.body.password'')). is_credential_finding f"
    by (simp only: credential_example [OF assms a2] simp_thms)
  then show "\<exists>f \<in> set (scan_line U fp n (u ''req.body.password'')).
         is_credential_finding f \<and> severity f = u ''critical''"
    using credential_finding_critical by blast
  have a3: "is_ascii (u ''user-password'')" by (rule is_ascii_u) simp
  have "\<not> is_comment ascii_unicode (u ''user-password'')
      \<and> search ascii_unicode (word_alt credential_tokens)
          (ulower ascii_unicode (u ''user-password''))" by code_simp
  then have "\<exists>f \<in> set (scan_line U fp n (u ''user-password'')). is_credential_finding f"
    by (simp only: credential_example [OF assms a3] simp_thms)
  then show "\<exists>f \<in> set (scan_line U fp n (u ''user-password'')).
         is_credential_finding f \<and> severity f = u ''critical''"
    using credential_finding_critical by blast
qed

theorem credential_rule_word_boundaries_witness:
  "scan_line ascii_unicode (u ''a.js'') 4 (u ''passwordReset'') = []
   \<and> scan_line ascii_unicode (u ''a.js'') 4 (u ''User-Password'')
       = [field_finding ascii_unicode (u ''a.js'') 4 (u ''User-Password'') ''Credential'' CRITICAL]
   \<and> is_credential_finding
        (field_finding ascii_unicode (u ''a.js'') 4 (u ''User-Password'') ''Credential'' CRITICAL)
   \<and> ulower ascii_unicode (u ''User-Password'') = u ''user-'' @ u ''password'' @ []"
proof -
  have a: "scan_line ascii_unicode (u ''a.js'') 4 (u ''passwordReset'') = []" by code_simp
  have b: "scan_line ascii_unicode (u ''a.js'') 4 (u ''User-Password'')
       = [field_finding ascii_unicode (u ''a.js'') 4 (u ''User-Password'') ''Credential'' CRITICAL]"
    by code_simp
  have c: "ulower ascii_unicode (u ''User-Password'') = u ''user-'' @ u ''password'' @ []"
    by code_simp
  from credential_rule_word_boundaries
    [OF py_unicode_ascii, of "u ''a.js''" 4 "u ''User-Password''"] a b c
  show ?thesis by (simp add: field_finding_credential)
qed

end
